theory Spec2Isabelle
  imports Main
begin

section \<open>The Go library calls the package relies on\<close>

text \<open>
  \<^verbatim>\<open>printLog\<close> renders its timestamp with
  \<^verbatim>\<open>t.UTC().Format("2006-1-2 15:04:05.000000")\<close>. The call leaves the repository, so
  this section models the part of Go's \<^verbatim>\<open>time\<close> package that the call exercises: a time
  value, its conversion to UTC, the civil date and clock of an instant, and the
  layout-driven \<^verbatim>\<open>Format\<close>. The layout elements covered are the numeric ones (year,
  month, day, day of year, hour, minute, second) and the fractional seconds; the
  elements written with letters, with an underscore or as a zone offset do not occur in
  the layout of \<^verbatim>\<open>printLog\<close> and are not modelled.
\<close>

subsection \<open>Time values\<close>

text \<open>
  A \<^verbatim>\<open>time.Time\<close> is an instant (seconds since the Unix epoch and the nanoseconds
  within the second) together with a location; of the location only the offset from
  UTC in force at the instant matters for the numeric fields.
\<close>

record Time =
  unixSec :: int
  nsec :: nat
  offset :: int

definition UTC :: "Time \<Rightarrow> Time" where
  "UTC t = t\<lparr>offset := 0\<rparr>"

definition localSec :: "Time \<Rightarrow> int" where
  "localSec t = unixSec t + offset t"

definition Hour :: "Time \<Rightarrow> int" where
  "Hour t = (localSec t mod 86400) div 3600"

definition Minute :: "Time \<Rightarrow> int" where
  "Minute t = (localSec t mod 3600) div 60"

definition Second :: "Time \<Rightarrow> int" where
  "Second t = localSec t mod 60"

definition Nanosecond :: "Time \<Rightarrow> int" where
  "Nanosecond t = int (nsec t)"

definition isLeap :: "int \<Rightarrow> bool" where
  "isLeap year = (year mod 4 = 0 \<and> (year mod 100 \<noteq> 0 \<or> year mod 400 = 0))"

text \<open>
  The year and the zero-based day of the year of a day count (days since 1 January
  1970), by cutting off 400-year, 100-year, 4-year and 1-year cycles counted from
  1 January of year 1.
\<close>

definition absDate :: "int \<Rightarrow> int \<times> int" where
  "absDate days =
     (let d = days + 719162;
          n400 = d div 146097;
          d = d - 146097 * n400;
          n100 = d div 36524;
          n100 = n100 - n100 div 4;
          d = d - 36524 * n100;
          n4 = d div 1461;
          d = d - 1461 * n4;
          n = d div 365;
          n = n - n div 4;
          d = d - 365 * n
      in (1 + 400 * n400 + 100 * n100 + 4 * n4 + n, d))"

definition daysBefore :: "int list" where
  "daysBefore = [0, 31, 59, 90, 120, 151, 181, 212, 243, 273, 304, 334, 365]"

definition Date :: "Time \<Rightarrow> int \<times> int \<times> int" where
  "Date t =
     (let (year, yday) = absDate (localSec t div 86400)
      in if isLeap year \<and> yday = 31 + 29 - 1 then (year, 2, 29)
         else
           let day = (if isLeap year \<and> yday > 31 + 29 - 1 then yday - 1 else yday);
               month = day div 31;
               e = daysBefore ! nat (month + 1);
               (month, begin) = (if day \<ge> e then (month + 1, e)
                                 else (month, daysBefore ! nat month))
           in (year, month + 1, day - begin + 1))"

subsection \<open>Decimal fields\<close>

definition digit :: "nat \<Rightarrow> char" where
  "digit u = ''0123456789'' ! u"

function utoa :: "nat \<Rightarrow> string" where
  "utoa u = (if u < 10 then [digit u] else utoa (u div 10) @ [digit (u mod 10)])"
  by pat_completeness auto
termination
  by (relation "measure id") auto

declare utoa.simps [simp del]

text \<open>
  \<^verbatim>\<open>appendInt(b, x, width)\<close>: a minus sign for a negative \<open>x\<close>, zeros up to
  \<open>width\<close> digits, then the decimal digits of \<open>|x|\<close>.
\<close>

definition appendInt :: "int \<Rightarrow> nat \<Rightarrow> string" where
  "appendInt x width =
     (let u = nat \<bar>x\<bar>; n = length (utoa u)
      in (if x < 0 then ''-'' else '''') @ replicate (width - n) CHR ''0'' @ utoa u)"

definition trimZeros :: "string \<Rightarrow> string" where
  "trimZeros s = rev (dropWhile (\<lambda>x. x = CHR ''0'') (rev s))"

text \<open>
  \<^verbatim>\<open>appendNano\<close>: the separator and the nine-digit nanosecond count cut to \<open>n\<close>
  digits; with \<open>trim\<close> (the \<^verbatim>\<open>.999\<close> elements) trailing zeros and a bare separator are
  dropped.
\<close>

definition appendNano :: "int \<Rightarrow> nat \<Rightarrow> char \<Rightarrow> bool \<Rightarrow> string" where
  "appendNano nanosec n dot trim =
     (if trim \<and> (n = 0 \<or> nanosec = 0) then []
      else
        let b = dot # appendInt nanosec 9;
            b = (if n < 9 then take (length b - 9 + n) b else b)
        in if trim then
             (let b = trimZeros b
              in if b \<noteq> [] \<and> last b = dot then butlast b else b)
           else b)"

subsection \<open>Layout elements\<close>

datatype std =
    stdLongYear | stdYear | stdNumMonth | stdZeroMonth | stdDay | stdZeroDay | stdZeroYearDay
  | stdHour | stdHour12 | stdZeroHour12 | stdMinute | stdZeroMinute | stdSecond | stdZeroSecond
  | stdFracSecond0 nat char | stdFracSecond9 nat char

definition hasPrefix :: "string \<Rightarrow> string \<Rightarrow> bool" where
  "hasPrefix s p = (take (length p) s = p)"

definition isDigit :: "string \<Rightarrow> bool" where
  "isDigit s = (case s of [] \<Rightarrow> False | c # _ \<Rightarrow> c \<in> set ''0123456789'')"

text \<open>
  The element that starts at the head of a layout, with the layout that follows it:
  the branches of \<^verbatim>\<open>nextStdChunk\<close> for the characters \<^verbatim>\<open>0\<close>, \<^verbatim>\<open>1\<close>, \<^verbatim>\<open>2\<close> and
  for a separator followed by a run of \<^verbatim>\<open>0\<close> or \<^verbatim>\<open>9\<close>.
\<close>

definition chunk0 :: "string \<Rightarrow> (std \<times> string) option" where
  "chunk0 layout =
     (if hasPrefix layout ''01'' then Some (stdZeroMonth, drop 2 layout)
      else if hasPrefix layout ''02'' then Some (stdZeroDay, drop 2 layout)
      else if hasPrefix layout ''03'' then Some (stdZeroHour12, drop 2 layout)
      else if hasPrefix layout ''04'' then Some (stdZeroMinute, drop 2 layout)
      else if hasPrefix layout ''05'' then Some (stdZeroSecond, drop 2 layout)
      else if hasPrefix layout ''06'' then Some (stdYear, drop 2 layout)
      else if hasPrefix layout ''002'' then Some (stdZeroYearDay, drop 3 layout)
      else None)"

definition chunk1 :: "string \<Rightarrow> (std \<times> string) option" where
  "chunk1 layout =
     (if hasPrefix layout ''15'' then Some (stdHour, drop 2 layout)
      else Some (stdNumMonth, drop 1 layout))"

definition chunk2 :: "string \<Rightarrow> (std \<times> string) option" where
  "chunk2 layout =
     (if hasPrefix layout ''2006'' then Some (stdLongYear, drop 4 layout)
      else Some (stdDay, drop 1 layout))"

definition chunkFrac :: "string \<Rightarrow> (std \<times> string) option" where
  "chunkFrac layout =
     (let c = hd layout; rest = drop 1 layout in
      if rest \<noteq> [] \<and> (hd rest = CHR ''0'' \<or> hd rest = CHR ''9'') then
        (let ch = hd rest;
             n = length (takeWhile (\<lambda>x. x = ch) rest);
             suffix = dropWhile (\<lambda>x. x = ch) rest
         in if \<not> isDigit suffix
            then Some (if ch = CHR ''9'' then stdFracSecond9 n c else stdFracSecond0 n c, suffix)
            else None)
      else None)"

definition stdChunk :: "string \<Rightarrow> (std \<times> string) option" where
  "stdChunk layout =
     (let c = hd layout in
      if layout = [] then None
      else if c = CHR ''0'' then chunk0 layout
      else if c = CHR ''1'' then chunk1 layout
      else if c = CHR ''2'' then chunk2 layout
      else if c = CHR ''3'' then Some (stdHour12, drop 1 layout)
      else if c = CHR ''4'' then Some (stdMinute, drop 1 layout)
      else if c = CHR ''5'' then Some (stdSecond, drop 1 layout)
      else if c = CHR ''.'' \<or> c = CHR '','' then chunkFrac layout
      else None)"

text \<open>The text one element contributes, as the switch of \<^verbatim>\<open>appendFormat\<close> writes it.\<close>

definition appendStd :: "Time \<Rightarrow> std \<Rightarrow> string" where
  "appendStd t s =
     (let (year, month, day) = Date t in
      case s of
        stdYear \<Rightarrow> appendInt (\<bar>year\<bar> mod 100) 2
      | stdLongYear \<Rightarrow> appendInt year 4
      | stdNumMonth \<Rightarrow> appendInt month 0
      | stdZeroMonth \<Rightarrow> appendInt month 2
      | stdDay \<Rightarrow> appendInt day 0
      | stdZeroDay \<Rightarrow> appendInt day 2
      | stdZeroYearDay \<Rightarrow> appendInt (snd (absDate (localSec t div 86400)) + 1) 3
      | stdHour \<Rightarrow> appendInt (Hour t) 2
      | stdHour12 \<Rightarrow> appendInt (if Hour t mod 12 = 0 then 12 else Hour t mod 12) 0
      | stdZeroHour12 \<Rightarrow> appendInt (if Hour t mod 12 = 0 then 12 else Hour t mod 12) 2
      | stdMinute \<Rightarrow> appendInt (Minute t) 0
      | stdZeroMinute \<Rightarrow> appendInt (Minute t) 2
      | stdSecond \<Rightarrow> appendInt (Second t) 0
      | stdZeroSecond \<Rightarrow> appendInt (Second t) 2
      | stdFracSecond0 n dot \<Rightarrow> appendNano (Nanosecond t) n dot False
      | stdFracSecond9 n dot \<Rightarrow> appendNano (Nanosecond t) n dot True)"

lemma chunk0_shorter:
  "chunk0 layout = Some (s, suffix) \<Longrightarrow> layout \<noteq> [] \<Longrightarrow> length suffix < length layout"
  by (auto simp: chunk0_def split: if_splits)

lemma chunk1_shorter:
  "chunk1 layout = Some (s, suffix) \<Longrightarrow> layout \<noteq> [] \<Longrightarrow> length suffix < length layout"
  by (auto simp: chunk1_def split: if_splits)

lemma chunk2_shorter:
  "chunk2 layout = Some (s, suffix) \<Longrightarrow> layout \<noteq> [] \<Longrightarrow> length suffix < length layout"
  by (auto simp: chunk2_def split: if_splits)

lemma chunkFrac_shorter:
  assumes "chunkFrac layout = Some (s, suffix)" "layout \<noteq> []"
  shows "length suffix < length layout"
proof -
  obtain c rest where l: "layout = c # rest"
    using assms(2) by (cases layout) auto
  from assms(1) have "suffix = dropWhile (\<lambda>x. x = hd rest) rest"
    by (simp add: chunkFrac_def Let_def l split: if_splits)
  then show ?thesis
    using length_dropWhile_le [of "\<lambda>x. x = hd rest" rest] l by simp
qed

lemma stdChunk_shorter:
  assumes "stdChunk layout = Some (s, suffix)"
  shows "length suffix < length layout"
proof -
  have ne: "layout \<noteq> []"
    using assms by (auto simp: stdChunk_def)
  from assms ne show ?thesis
    unfolding stdChunk_def Let_def
    by (simp split: if_splits)
       (auto dest: chunk0_shorter chunk1_shorter chunk2_shorter chunkFrac_shorter)
qed

text \<open>
  \<^verbatim>\<open>Format\<close>: the layout is read from left to right; an element is replaced by its
  text, any other character is copied.
\<close>

function Format :: "Time \<Rightarrow> string \<Rightarrow> string" where
  "Format t [] = []"
| "Format t (c # rest) =
     (case stdChunk (c # rest) of
        Some (s, suffix) \<Rightarrow> appendStd t s @ Format t suffix
      | None \<Rightarrow> c # Format t rest)"
  by pat_completeness auto
termination
  by (relation "measure (\<lambda>(t, layout). length layout)") (auto dest: stdChunk_shorter)

declare Format.simps [simp del]

section \<open>The trace package\<close>

subsection \<open>Package state\<close>

text \<open>
  An \<^verbatim>\<open>io.Writer\<close> is a handle: \<^verbatim>\<open>os.Stdout\<close> or a writer the caller supplies.
  What a writer has received is kept per handle as the list of the byte strings
  passed to its \<^verbatim>\<open>Write\<close>, one entry for each call, as the test's \<^verbatim>\<open>memoryLog\<close>
  keeps them. Writers are taken to accept every write without panicking.
\<close>

datatype writer = Stdout | Writer nat

record groupData =
  name :: string
  out :: writer
  enabled :: bool

text \<open>
  The values sent on \<^verbatim>\<open>logstream\<close>: an interface value is one of the four command
  types or nil.
\<close>

datatype logApi =
    traceMsg int Time string
  | infoMsg int Time string
  | cmdEnabletrace bool
  | cmdEnableGroup int bool
  | nilApi

datatype panic =
    IndexOutOfRange
  | NilDereference
  | GroupNameExists
  | SendOnClosedChannel
  | CloseOfClosedChannel

text \<open>
  The package variables \<^verbatim>\<open>groups\<close>, \<^verbatim>\<open>traceEnabled\<close>, \<^verbatim>\<open>logstream\<close> and
  \<^verbatim>\<open>waitGroup\<close>. The channel is its buffer (oldest value first) and whether it has been
  closed; \<open>running\<close> says that the \<^verbatim>\<open>logRoutine\<close> goroutine of the current
  channel has not returned yet; \<open>files\<close> holds what each writer has received.
  \<open>handled\<close> is an observation kept for the proofs, not a variable of the package:
  the commands whose \<^verbatim>\<open>do\<close> has returned, in the order the worker ran them.
\<close>

record world =
  groups :: "groupData list"
  traceEnabled :: bool
  logstream :: "logApi list"
  closed :: bool
  waitGroup :: nat
  running :: bool
  files :: "writer \<Rightarrow> string list"
  handled :: "logApi list"

text \<open>
  What a call does to the caller: it returns, it panics, or it cannot proceed yet
  (a send on a full channel, a receive on an empty open one, a wait for a goroutine
  that does not finish).
\<close>

datatype 'a outcome = Ok 'a | Panic panic | Blocked

definition DefaultGroupId :: int where
  "DefaultGroupId = 0"

definition chanBufSize :: nat where
  "chanBufSize = 1024"

type_synonym level = int

definition trace :: level where
  "trace = 1"

definition info :: level where
  "info = 2"

subsection \<open>The commands\<close>

text \<open>\<^verbatim>\<open>groups[i]\<close>, with the bounds check of a Go slice index.\<close>

definition groupAt :: "world \<Rightarrow> int \<Rightarrow> panic + groupData" where
  "groupAt w i =
     (if 0 \<le> i \<and> i < int (length (groups w)) then Inr (groups w ! nat i)
      else Inl IndexOutOfRange)"

text \<open>\<^verbatim>\<open>fmt.Fprintf\<close> hands the formatted line to the writer in one \<^verbatim>\<open>Write\<close>.\<close>

definition Fprintf :: "writer \<Rightarrow> string \<Rightarrow> world \<Rightarrow> world" where
  "Fprintf wr line w = w\<lparr>files := (files w)(wr := files w wr @ [line])\<rparr>"

definition printLog :: "int \<Rightarrow> Time \<Rightarrow> string \<Rightarrow> world \<Rightarrow> panic + world" where
  "printLog grp t msg w =
     (let strTime = Format (UTC t) ''2006-1-2 15:04:05.000000'' in
      if grp = DefaultGroupId then
        (case groupAt w DefaultGroupId of
           Inl e \<Rightarrow> Inl e
         | Inr g \<Rightarrow> Inr (Fprintf (out g) (strTime @ '' '' @ msg @ ''\<newline>'') w))
      else
        (case groupAt w grp of
           Inl e \<Rightarrow> Inl e
         | Inr g \<Rightarrow>
             Inr (Fprintf (out g)
                    (strTime @ '' ['' @ name g @ ''] '' @ msg @ ''\<newline>'') w)))"

text \<open>
  \<^verbatim>\<open>traceEnabled && groups[m.group].enabled\<close>: the slice is indexed only when the
  left operand holds.
\<close>

definition traceMsg_do :: "int \<Rightarrow> Time \<Rightarrow> string \<Rightarrow> world \<Rightarrow> panic + world" where
  "traceMsg_do grp t msg w =
     (if traceEnabled w then
        (case groupAt w grp of
           Inl e \<Rightarrow> Inl e
         | Inr g \<Rightarrow> if enabled g then printLog grp t msg w else Inr w)
      else Inr w)"

definition infoMsg_do :: "int \<Rightarrow> Time \<Rightarrow> string \<Rightarrow> world \<Rightarrow> panic + world" where
  "infoMsg_do grp t msg w =
     (case groupAt w grp of
        Inl e \<Rightarrow> Inl e
      | Inr g \<Rightarrow> if enabled g then printLog grp t msg w else Inr w)"

definition cmdEnabletrace_do :: "bool \<Rightarrow> world \<Rightarrow> panic + world" where
  "cmdEnabletrace_do on w = Inr (w\<lparr>traceEnabled := on\<rparr>)"

definition cmdEnableGroup_do :: "int \<Rightarrow> bool \<Rightarrow> world \<Rightarrow> panic + world" where
  "cmdEnableGroup_do grp on w =
     (case groupAt w grp of
        Inl e \<Rightarrow> Inl e
      | Inr g \<Rightarrow> Inr (w\<lparr>groups := (groups w)[nat grp := g\<lparr>enabled := on\<rparr>]\<rparr>))"

text \<open>The call \<^verbatim>\<open>i.do()\<close> of the worker, dispatched on the dynamic type.\<close>

fun logApi_do :: "logApi \<Rightarrow> world \<Rightarrow> panic + world" where
  "logApi_do (traceMsg grp t msg) w = traceMsg_do grp t msg w"
| "logApi_do (infoMsg grp t msg) w = infoMsg_do grp t msg w"
| "logApi_do (cmdEnabletrace on) w = cmdEnabletrace_do on w"
| "logApi_do (cmdEnableGroup grp on) w = cmdEnableGroup_do grp on w"
| "logApi_do nilApi w = Inl NilDereference"

subsection \<open>The channel and the worker\<close>

text \<open>
  \<^verbatim>\<open>logstream <- cmd\<close>: a send on a closed channel panics, a send on a full buffer
  waits, any other send appends to the buffer.
\<close>

definition send :: "logApi \<Rightarrow> world \<Rightarrow> world outcome" where
  "send cmd w =
     (if closed w then Panic SendOnClosedChannel
      else if length (logstream w) \<ge> chanBufSize then Blocked
      else Ok (w\<lparr>logstream := logstream w @ [cmd]\<rparr>))"

text \<open>
  One turn of \<^verbatim>\<open>logRoutine\<close>: it receives the oldest buffered command and runs its
  \<^verbatim>\<open>do\<close>; on an empty buffer it waits while the channel is open and, once the
  channel is closed, leaves the loop and calls \<^verbatim>\<open>waitGroup.Done()\<close>. A panic in
  \<^verbatim>\<open>do\<close> is not recovered anywhere and ends the program.
\<close>

definition logRoutine_step :: "world \<Rightarrow> world outcome" where
  "logRoutine_step w =
     (if \<not> running w then Blocked
      else case logstream w of
        [] \<Rightarrow>
          if closed w then Ok (w\<lparr>running := False, waitGroup := waitGroup w - 1\<rparr>)
          else Blocked
      | i # rest \<Rightarrow>
          (case logApi_do i (w\<lparr>logstream := rest\<rparr>) of
             Inl e \<Rightarrow> Panic e
           | Inr w' \<Rightarrow> Ok (w'\<lparr>handled := handled w' @ [i]\<rparr>)))"

text \<open>
  No command touches the channel, the wait group or the worker's own status; the
  termination of the drain below rests on it.
\<close>

lemma printLog_channel:
  "printLog grp t msg w = Inr w' \<Longrightarrow>
     logstream w' = logstream w \<and> running w' = running w \<and> closed w' = closed w
     \<and> waitGroup w' = waitGroup w \<and> handled w' = handled w"
  by (auto simp: printLog_def Fprintf_def Let_def split: if_splits sum.splits)

lemma logApi_do_channel:
  "logApi_do i w = Inr w' \<Longrightarrow>
     logstream w' = logstream w \<and> running w' = running w \<and> closed w' = closed w
     \<and> waitGroup w' = waitGroup w \<and> handled w' = handled w"
  by (cases i)
     (auto simp: traceMsg_do_def infoMsg_do_def cmdEnabletrace_do_def cmdEnableGroup_do_def
        split: if_splits sum.splits dest: printLog_channel)

lemma logRoutine_step_measure:
  assumes "logRoutine_step w = Ok w'"
  shows "length (logstream w') + (if running w' then 1 else 0)
           < length (logstream w) + (if running w then 1 else 0)"
proof (cases "logstream w")
  case Nil
  with assms show ?thesis
    by (auto simp: logRoutine_step_def split: if_splits)
next
  case (Cons i rest)
  with assms obtain v where v: "logApi_do i (w\<lparr>logstream := rest\<rparr>) = Inr v"
    and w': "w' = v\<lparr>handled := handled v @ [i]\<rparr>" and r: "running w"
    by (auto simp: logRoutine_step_def split: if_splits sum.splits)
  from logApi_do_channel [OF v] have "logstream v = rest" "running v = running w"
    by simp_all
  with Cons w' r show ?thesis by simp
qed

text \<open>
  \<^verbatim>\<open>waitGroup.Wait()\<close> while the worker is the only goroutine that runs: the worker
  takes its turns until the counter is zero.
\<close>

function wait :: "world \<Rightarrow> world outcome" where
  "wait w =
     (if waitGroup w = 0 then Ok w
      else case logRoutine_step w of
        Ok w' \<Rightarrow> wait w'
      | Panic e \<Rightarrow> Panic e
      | Blocked \<Rightarrow> Blocked)"
  by pat_completeness auto
termination
  by (relation "measure (\<lambda>w. length (logstream w) + (if running w then 1 else 0))")
     (auto dest: logRoutine_step_measure)

declare wait.simps [simp del]

text \<open>\<^verbatim>\<open>Done\<close>: \<^verbatim>\<open>close(logstream)\<close>, then \<^verbatim>\<open>waitGroup.Wait()\<close>.\<close>

definition Done :: "world \<Rightarrow> world outcome" where
  "Done w =
     (if closed w then Panic CloseOfClosedChannel
      else wait (w\<lparr>closed := True\<rparr>))"

subsection \<open>Initialisation\<close>

definition defaultGroup :: "writer \<Rightarrow> bool \<Rightarrow> groupData" where
  "defaultGroup wr on = \<lparr>name = '''', out = wr, enabled = on\<rparr>"

text \<open>
  \<^verbatim>\<open>reset\<close>: the default group is appended when the registry is empty, then a fresh
  channel is made and a worker started on it. The model keeps one channel, so it
  follows \<^verbatim>\<open>reset\<close> where the package and its test call it: at \<^verbatim>\<open>init\<close> and after
  a \<^verbatim>\<open>Done\<close>, when the previous channel holds nothing.
\<close>

definition reset :: "world \<Rightarrow> world" where
  "reset w =
     (let gs = (if length (groups w) = 0 then groups w @ [defaultGroup Stdout True]
                else groups w)
      in w\<lparr>groups := gs, logstream := [], closed := False,
            waitGroup := waitGroup w + 1, running := True\<rparr>)"

text \<open>The package variables as declared, and the state after \<^verbatim>\<open>init\<close>.\<close>

definition declared :: world where
  "declared =
     \<lparr>groups = [], traceEnabled = False, logstream = [], closed = False, waitGroup = 0,
      running = False, files = (\<lambda>_. []), handled = []\<rparr>"

definition init :: world where
  "init = reset declared"

subsection \<open>Configuration\<close>

text \<open>The loop of \<^verbatim>\<open>RegisterGroup\<close> that looks for a group of the same name.\<close>

fun nameExists :: "string \<Rightarrow> groupData list \<Rightarrow> bool" where
  "nameExists n [] = False"
| "nameExists n (g # gs) = (if n = name g then True else nameExists n gs)"

text \<open>
  \<^verbatim>\<open>RegisterGroup\<close> returns the new index or panics; either way the caller goes on
  (or recovers) in the state given as second component.
\<close>

definition RegisterGroup :: "string \<Rightarrow> writer \<Rightarrow> bool \<Rightarrow> world \<Rightarrow> (panic + int) \<times> world" where
  "RegisterGroup n wr on w =
     (if nameExists n (groups w) then (Inl GroupNameExists, w)
      else
        let gs = (if length (groups w) = 0 then groups w @ [defaultGroup Stdout True]
                  else groups w);
            gs = gs @ [\<lparr>name = n, out = wr, enabled = on\<rparr>]
        in (Inr (int (length gs) - 1), w\<lparr>groups := gs\<rparr>))"

definition SetDefaultOutput :: "writer \<Rightarrow> world \<Rightarrow> world" where
  "SetDefaultOutput wr w =
     (if length (groups w) = 0 then w\<lparr>groups := groups w @ [defaultGroup wr True]\<rparr>
      else w\<lparr>groups := (groups w)[0 := defaultGroup wr (enabled (groups w ! 0))]\<rparr>)"

definition EnableGroup :: "int \<Rightarrow> bool \<Rightarrow> world \<Rightarrow> world outcome" where
  "EnableGroup grp on w = send (cmdEnableGroup grp on) w"

definition EnableTrace :: "bool \<Rightarrow> world \<Rightarrow> world outcome" where
  "EnableTrace on w = send (cmdEnabletrace on) w"

subsection \<open>Logging calls\<close>

text \<open>
  \<^verbatim>\<open>fmt.Sprintf\<close> and \<^verbatim>\<open>fmt.Sprint\<close> are left open: the logging calls are modelled
  for any pair of formatting functions over any type of arguments. The reading of the
  clock, \<^verbatim>\<open>time.Now()\<close>, is the argument \<open>now\<close>.
\<close>

record 'a fmt =
  Sprintf :: "string \<Rightarrow> 'a list \<Rightarrow> string"
  Sprint :: "'a list \<Rightarrow> string"

definition log :: "'a fmt \<Rightarrow> int \<Rightarrow> level \<Rightarrow> string \<Rightarrow> 'a list \<Rightarrow> Time \<Rightarrow> world \<Rightarrow> world outcome" where
  "log F grp l format a now w =
     (let t = now;
          m = (if length format > 0 then Sprintf F format a else Sprint F a);
          cmd = (if l = trace then traceMsg grp t m
                 else if l = info then infoMsg grp t m
                 else nilApi)
      in send cmd w)"

definition Info :: "'a fmt \<Rightarrow> 'a list \<Rightarrow> Time \<Rightarrow> world \<Rightarrow> world outcome" where
  "Info F a now w = log F 0 info '''' a now w"

definition Infof :: "'a fmt \<Rightarrow> string \<Rightarrow> 'a list \<Rightarrow> Time \<Rightarrow> world \<Rightarrow> world outcome" where
  "Infof F format a now w = log F 0 info format a now w"

definition Infog :: "'a fmt \<Rightarrow> int \<Rightarrow> 'a list \<Rightarrow> Time \<Rightarrow> world \<Rightarrow> world outcome" where
  "Infog F grp a now w = log F grp info '''' a now w"

definition Infogf :: "'a fmt \<Rightarrow> int \<Rightarrow> string \<Rightarrow> 'a list \<Rightarrow> Time \<Rightarrow> world \<Rightarrow> world outcome" where
  "Infogf F grp format a now w = log F grp info format a now w"

definition Trace :: "'a fmt \<Rightarrow> 'a list \<Rightarrow> Time \<Rightarrow> world \<Rightarrow> world outcome" where
  "Trace F a now w = log F 0 trace '''' a now w"

definition Tracef :: "'a fmt \<Rightarrow> string \<Rightarrow> 'a list \<Rightarrow> Time \<Rightarrow> world \<Rightarrow> world outcome" where
  "Tracef F format a now w = log F 0 trace format a now w"

definition Traceg :: "'a fmt \<Rightarrow> int \<Rightarrow> 'a list \<Rightarrow> Time \<Rightarrow> world \<Rightarrow> world outcome" where
  "Traceg F grp a now w = log F grp trace '''' a now w"

definition Tracegf :: "'a fmt \<Rightarrow> int \<Rightarrow> string \<Rightarrow> 'a list \<Rightarrow> Time \<Rightarrow> world \<Rightarrow> world outcome" where
  "Tracegf F grp format a now w = log F grp trace format a now w"

subsection \<open>Schedules\<close>

text \<open>
  A run of the program up to the call of \<^verbatim>\<open>Done\<close> is a sequence of events: a producer
  completes a send, the worker takes a turn, a caller registers a group or replaces
  the default output. A schedule that asks for a step that cannot be taken (a send on
  a full buffer, a worker turn on an empty open channel) is \<open>Blocked\<close>; one in
  which a step panics ends with that panic.
\<close>

datatype event =
    Send logApi
  | Worker
  | Register string writer bool
  | SetOutput writer

fun step :: "event \<Rightarrow> world \<Rightarrow> world outcome" where
  "step (Send cmd) w = send cmd w"
| "step Worker w = logRoutine_step w"
| "step (Register n wr on) w =
     (case RegisterGroup n wr on w of
        (Inl e, _) \<Rightarrow> Panic e
      | (Inr _, w') \<Rightarrow> Ok w')"
| "step (SetOutput wr) w = Ok (SetDefaultOutput wr w)"

fun run :: "event list \<Rightarrow> world \<Rightarrow> world outcome" where
  "run [] w = Ok w"
| "run (e # es) w =
     (case step e w of
        Ok w' \<Rightarrow> run es w'
      | Panic p \<Rightarrow> Panic p
      | Blocked \<Rightarrow> Blocked)"

fun sent :: "event list \<Rightarrow> logApi list" where
  "sent [] = []"
| "sent (Send cmd # es) = cmd # sent es"
| "sent (_ # es) = sent es"

section \<open>What the specification says\<close>

subsection \<open>The line format, in the specification's words\<close>

text \<open>
  The definitions of this subsection follow the specification, not the code; the claims
  compare them with what \<^verbatim>\<open>printLog\<close> writes.

  A field of exactly \<open>k\<close> decimal digits, zero-padded, and the digit characters.
\<close>

fun zeroPadded :: "nat \<Rightarrow> nat \<Rightarrow> string" where
  "zeroPadded 0 n = []"
| "zeroPadded (Suc k) n = zeroPadded k (n div 10) @ [digit (n mod 10)]"

definition digitChar :: "char \<Rightarrow> bool" where
  "digitChar c = (c \<in> set ''0123456789'')"

definition allDigits :: "string \<Rightarrow> bool" where
  "allDigits s = list_all digitChar s"

text \<open>
  The timestamp of section 4.3: the instant in UTC, laid out as
  \<^verbatim>\<open>YYYY-M-D HH:MM:SS.ffffff\<close>, month and day not padded, the time of day zero-padded,
  microseconds in six digits.
\<close>

definition spec_timestamp :: "Time \<Rightarrow> string" where
  "spec_timestamp t =
     (let u = UTC t; (year, month, day) = Date u
      in zeroPadded 4 (nat year) @ ''-'' @ utoa (nat month) @ ''-'' @ utoa (nat day) @ '' '' @
         zeroPadded 2 (nat (Hour u)) @ '':'' @ zeroPadded 2 (nat (Minute u)) @ '':'' @
         zeroPadded 2 (nat (Second u)) @ ''.'' @ zeroPadded 6 (nsec t div 1000))"

text \<open>
  The line of section 4.3 for a group index, the group's name, a timestamp and a text,
  and the line of section 6, which differs for the default group.
\<close>

definition spec_format :: "int \<Rightarrow> string \<Rightarrow> string \<Rightarrow> string \<Rightarrow> string" where
  "spec_format idx nm timestamp text =
     (if idx = 0 then timestamp @ '' '' @ text @ ''\<newline>''
      else timestamp @ '' ['' @ nm @ ''] '' @ text @ ''\<newline>'')"

definition wire_format :: "int \<Rightarrow> string \<Rightarrow> string \<Rightarrow> string \<Rightarrow> string" where
  "wire_format idx nm timestamp text =
     (if idx = 0 then timestamp @ '' [ '' @ text @ ''\<newline>''
      else timestamp @ '' ['' @ nm @ ''] '' @ text @ ''\<newline>'')"

text \<open>The years that \<^verbatim>\<open>YYYY\<close> can show: 0 to 9999, in UTC.\<close>

definition year_in_range :: "Time \<Rightarrow> bool" where
  "year_in_range t = (0 \<le> fst (Date (UTC t)) \<and> fst (Date (UTC t)) \<le> 9999)"

subsection \<open>States and schedules the claims speak of\<close>

text \<open>The registry holds the default group: entry 0 exists and has the empty name.\<close>

definition defaultPresent :: "world \<Rightarrow> bool" where
  "defaultPresent w = (groups w \<noteq> [] \<and> name (groups w ! 0) = '''')"

text \<open>The channel is open and its worker has not returned.\<close>

definition serving :: "world \<Rightarrow> bool" where
  "serving w = (\<not> closed w \<and> running w \<and> waitGroup w = 1)"

text \<open>A command that is not nil and names a group below \<open>n\<close>, if it names one.\<close>

fun safeCmd :: "nat \<Rightarrow> logApi \<Rightarrow> bool" where
  "safeCmd n (traceMsg grp t msg) = (0 \<le> grp \<and> grp < int n)"
| "safeCmd n (infoMsg grp t msg) = (0 \<le> grp \<and> grp < int n)"
| "safeCmd n (cmdEnabletrace on) = True"
| "safeCmd n (cmdEnableGroup grp on) = (0 \<le> grp \<and> grp < int n)"
| "safeCmd n nilApi = False"

text \<open>
  For a registry \<open>gs\<close> and a value \<open>te\<close> of \<^verbatim>\<open>traceEnabled\<close>: the log commands
  whose group exists and is enabled (with tracing on for a trace command), the writer
  of the command's group, and the command's formatted line.
\<close>

definition formatted :: "groupData list \<Rightarrow> int \<Rightarrow> Time \<Rightarrow> string \<Rightarrow> string" where
  "formatted gs grp t msg =
     spec_format grp (name (gs ! nat grp)) (Format (UTC t) ''2006-1-2 15:04:05.000000'') msg"

fun live :: "groupData list \<Rightarrow> bool \<Rightarrow> logApi \<Rightarrow> bool" where
  "live gs te (traceMsg grp t msg) =
     (te \<and> 0 \<le> grp \<and> grp < int (length gs) \<and> enabled (gs ! nat grp))"
| "live gs te (infoMsg grp t msg) =
     (0 \<le> grp \<and> grp < int (length gs) \<and> enabled (gs ! nat grp))"
| "live gs te _ = False"

fun sinkOf :: "groupData list \<Rightarrow> logApi \<Rightarrow> writer" where
  "sinkOf gs (traceMsg grp t msg) = out (gs ! nat grp)"
| "sinkOf gs (infoMsg grp t msg) = out (gs ! nat grp)"
| "sinkOf gs _ = Stdout"

fun lineOf :: "groupData list \<Rightarrow> logApi \<Rightarrow> string" where
  "lineOf gs (traceMsg grp t msg) = formatted gs grp t msg"
| "lineOf gs (infoMsg grp t msg) = formatted gs grp t msg"
| "lineOf gs _ = []"

text \<open>The lines of the commands \<open>cmds\<close> that go to the writer \<open>wr\<close>, in order.\<close>

definition linesFor :: "groupData list \<Rightarrow> writer \<Rightarrow> logApi list \<Rightarrow> string list" where
  "linesFor gs wr cmds = map (lineOf gs) (filter (\<lambda>c. sinkOf gs c = wr) cmds)"

text \<open>A schedule followed by the call of \<^verbatim>\<open>Done\<close>.\<close>

definition thenDone :: "event list \<Rightarrow> world \<Rightarrow> world outcome" where
  "thenDone evs w =
     (case run evs w of
        Ok w' \<Rightarrow> Done w'
      | Panic p \<Rightarrow> Panic p
      | Blocked \<Rightarrow> Blocked)"

text \<open>The events that go through the channel: sends and worker turns.\<close>

fun queueOnly :: "event \<Rightarrow> bool" where
  "queueOnly (Send cmd) = True"
| "queueOnly Worker = True"
| "queueOnly _ = False"

subsection \<open>Sample inputs\<close>

text \<open>
  A clock reading, 31 October 2026, 01:02:03.001234567 UTC, taken in a location one hour
  east of UTC; the state after \<^verbatim>\<open>RegisterGroup("test", w1, true)\<close> as in the package's
  test; and that state with tracing switched on.
\<close>

definition sampleTime :: Time where
  "sampleTime = \<lparr>unixSec = 1793408523, nsec = 1234567, offset = 3600\<rparr>"

definition testWorld :: world where
  "testWorld = snd (RegisterGroup ''test'' (Writer 1) True init)"

definition tracingWorld :: world where
  "tracingWorld = testWorld\<lparr>traceEnabled := True\<rparr>"

section \<open>Auxiliary facts\<close>

subsection \<open>Decimal fields\<close>

text \<open>The fields \<^verbatim>\<open>appendInt\<close> writes, against the zero-padded fields of the specification.\<close>

lemma digit_0: "digit 0 = CHR ''0''"
  by (simp add: digit_def)

lemma digit_is_digit: "u < 10 \<Longrightarrow> digitChar (digit u)"
proof -
  assume "u < 10"
  then have "u < length ''0123456789''" by simp
  then have "''0123456789'' ! u \<in> set ''0123456789''" by (rule nth_mem)
  then show ?thesis by (simp only: digit_def digitChar_def)
qed

lemma digit_nonzero: "0 < u \<Longrightarrow> u < 10 \<Longrightarrow> digit u \<noteq> CHR ''0''"
proof -
  assume "0 < u" "u < 10"
  then have "u = 1 \<or> u = 2 \<or> u = 3 \<or> u = 4 \<or> u = 5 \<or> u = 6 \<or> u = 7 \<or> u = 8 \<or> u = 9"
    by presburger
  then show ?thesis by (auto simp: digit_def)
qed

lemma length_zeroPadded: "length (zeroPadded k n) = k"
  by (induction k arbitrary: n) simp_all

lemma allDigits_zeroPadded: "allDigits (zeroPadded k n)"
  by (induction k arbitrary: n) (simp_all add: allDigits_def digit_is_digit)

lemma zeroPadded_zero: "zeroPadded k 0 = replicate k CHR ''0''"
  by (induction k) (simp_all add: digit_0 replicate_append_same)

lemma length_utoa_pos: "0 < length (utoa u)"
  by (subst utoa.simps) simp

lemma utoa_padded:
  "0 < k \<Longrightarrow> n < 10 ^ k \<Longrightarrow>
     replicate (k - length (utoa n)) CHR ''0'' @ utoa n = zeroPadded k n"
proof (induction k arbitrary: n)
  case 0
  then show ?case by simp
next
  case (Suc k)
  show ?case
  proof (cases "n < 10")
    case True
    then have u: "utoa n = [digit n]" by (subst utoa.simps) simp
    from True have "n div 10 = 0" "n mod 10 = n" by simp_all
    then show ?thesis by (simp add: u zeroPadded_zero)
  next
    case False
    then have u: "utoa n = utoa (n div 10) @ [digit (n mod 10)]" by (subst utoa.simps) simp
    from Suc.prems have d: "n div 10 < 10 ^ k" by (simp add: less_mult_imp_div_less)
    from False d have "0 < k" by (cases k) auto
    from Suc.IH [OF this d] show ?thesis by (simp add: u)
  qed
qed

lemma appendInt_padded: "0 < k \<Longrightarrow> n < 10 ^ k \<Longrightarrow> appendInt (int n) k = zeroPadded k n"
  by (simp add: appendInt_def utoa_padded)

lemma appendInt_plain: "appendInt (int n) 0 = utoa n"
  by (simp add: appendInt_def)

lemma appendInt_nat_padded:
  assumes "0 \<le> x" "x < 10 ^ k" "0 < k"
  shows "appendInt x k = zeroPadded k (nat x)"
proof -
  from assms have "nat x < 10 ^ k" by (simp add: nat_less_iff)
  from appendInt_padded [OF assms(3) this] assms(1) show ?thesis by simp
qed

lemma appendInt_nat_plain:
  assumes "0 \<le> x"
  shows "appendInt x 0 = utoa (nat x)"
  using appendInt_plain [of "nat x"] assms by simp

lemma take_zeroPadded: "take k (zeroPadded (k + j) n) = zeroPadded k (n div 10 ^ j)"
proof (induction j arbitrary: n)
  case 0
  then show ?case by (simp add: length_zeroPadded)
next
  case (Suc j)
  have "take k (zeroPadded (Suc (k + j)) n) = take k (zeroPadded (k + j) (n div 10))"
    by (simp add: length_zeroPadded)
  also have "\<dots> = zeroPadded k (n div 10 div 10 ^ j)" by (rule Suc.IH)
  also have "n div 10 div 10 ^ j = n div 10 ^ Suc j" by (simp add: div_mult2_eq)
  finally show ?case by simp
qed

lemma appendNano_micro:
  assumes "n < 1000000000"
  shows "appendNano (int n) 6 CHR ''.'' False = CHR ''.'' # zeroPadded 6 (n div 1000)"
proof -
  have a: "appendInt (int n) 9 = zeroPadded 9 n" using assms by (simp add: appendInt_padded)
  have "take 6 (zeroPadded (6 + 3) n) = zeroPadded 6 (n div 10 ^ 3)" by (rule take_zeroPadded)
  then have "take 6 (zeroPadded 9 n) = zeroPadded 6 (n div 1000)" by simp
  then show ?thesis by (simp add: appendNano_def a length_zeroPadded Let_def)
qed

lemma allDigits_utoa: "allDigits (utoa n)"
proof (induction n rule: utoa.induct)
  case (1 u)
  show ?case
  proof (cases "u < 10")
    case True
    then show ?thesis by (subst utoa.simps) (simp add: allDigits_def digit_is_digit)
  next
    case False
    with 1 have "allDigits (utoa (u div 10))" by simp
    with False show ?thesis by (subst utoa.simps) (simp add: allDigits_def digit_is_digit)
  qed
qed

lemma utoa_small:
  assumes "0 < n" "n < 100"
  shows "(length (utoa n) = 1 \<or> length (utoa n) = 2) \<and> hd (utoa n) \<noteq> CHR ''0''"
proof (cases "n < 10")
  case True
  then have "utoa n = [digit n]" by (subst utoa.simps) simp
  with assms True show ?thesis by (simp add: digit_nonzero)
next
  case False
  with assms have d: "0 < n div 10" "n div 10 < 10" by auto
  then have "utoa (n div 10) = [digit (n div 10)]" by (subst utoa.simps) simp
  with False have "utoa n = [digit (n div 10), digit (n mod 10)]" by (subst utoa.simps) simp
  with d show ?thesis by (simp add: digit_nonzero)
qed

lemma zeroPadded_2: "zeroPadded 2 n = [digit (n div 10 mod 10), digit (n mod 10)]"
proof -
  have "zeroPadded 2 n = zeroPadded (Suc (Suc 0)) n" by (simp only: numeral_2_eq_2)
  then show ?thesis by simp
qed

lemma zeroPadded_Suc2:
  "zeroPadded (Suc (Suc k)) n = zeroPadded k (n div 100) @ zeroPadded 2 n"
  by (simp add: zeroPadded_2 div_mult2_eq [symmetric])

lemma zeroPadded_4: "zeroPadded 4 n = zeroPadded 2 (n div 100) @ zeroPadded 2 n"
  using zeroPadded_Suc2 [of 2 n] by simp

lemma zeroPadded_6: "zeroPadded 6 n = zeroPadded 4 (n div 100) @ zeroPadded 2 n"
  using zeroPadded_Suc2 [of 4 n] by simp

subsection \<open>Calendar and clock\<close>

text \<open>The day of the year lies in the year, the month in 1 to 12, the day in 1 to 31, and the clock fields in their ranges.\<close>

lemma div_window:
  fixes a c :: int
  assumes "0 < c"
  shows "c * (a div c) \<le> a" and "a < c * (a div c) + c"
proof -
  have "a = c * (a div c) + a mod c" by simp
  moreover have "0 \<le> a mod c" "a mod c < c" using assms by simp_all
  ultimately show "c * (a div c) \<le> a" and "a < c * (a div c) + c" by linarith+
qed

lemma cut4:
  fixes r :: int
  assumes "0 \<le> r" "r \<le> 4"
  shows "r - r div 4 = (if r = 4 then 3 else r)"
proof -
  from assms have "r = 0 \<or> r = 1 \<or> r = 2 \<or> r = 3 \<or> r = 4" by linarith
  then show ?thesis by auto
qed

lemma absDate_bounds:
  assumes "absDate z = (y, yd)"
  shows "0 \<le> yd \<and> yd \<le> 365 \<and> (yd = 365 \<longrightarrow> isLeap y)"
proof -
  define d0 where "d0 = z + 719162"
  define n400 where "n400 = d0 div 146097"
  define d1 where "d1 = d0 - 146097 * n400"
  define r100 where "r100 = d1 div 36524"
  define n100 where "n100 = r100 - r100 div 4"
  define d2 where "d2 = d1 - 36524 * n100"
  define n4 where "n4 = d2 div 1461"
  define d3 where "d3 = d2 - 1461 * n4"
  define r1 where "r1 = d3 div 365"
  define n1 where "n1 = r1 - r1 div 4"
  define d4 where "d4 = d3 - 365 * n1"
  have "absDate z = (1 + 400 * n400 + 100 * n100 + 4 * n4 + n1, d4)"
    unfolding absDate_def Let_def d0_def n400_def d1_def r100_def n100_def d2_def
      n4_def d3_def r1_def n1_def d4_def
    by (rule refl)
  with assms have y: "y = 1 + 400 * n400 + 100 * n100 + 4 * n4 + n1" and yd: "yd = d4"
    by simp_all
  have d1: "0 \<le> d1" "d1 \<le> 146096"
    using div_window [of 146097 d0] unfolding d1_def n400_def by linarith+
  have w100: "36524 * r100 \<le> d1" "d1 < 36524 * r100 + 36524"
    using div_window [of 36524 d1] unfolding r100_def by linarith+
  have r100: "0 \<le> r100" "r100 \<le> 4"
    using w100 d1 by linarith+
  have n100: "n100 = (if r100 = 4 then 3 else r100)"
    unfolding n100_def using r100 by (rule cut4)
  have d2: "0 \<le> d2" "d2 \<le> 36524" "d2 \<ge> 36524 \<longrightarrow> n100 = 3"
    unfolding d2_def n100 using d1 r100 w100 by (auto split: if_splits)
  have w4: "1461 * n4 \<le> d2" "d2 < 1461 * n4 + 1461"
    using div_window [of 1461 d2] unfolding n4_def by linarith+
  have n4: "0 \<le> n4" "n4 \<le> 24"
    using w4 d2 by linarith+
  have d3: "0 \<le> d3" "d3 \<le> 1460" "d3 \<ge> 1460 \<and> n4 = 24 \<longrightarrow> d2 \<ge> 36524"
    unfolding d3_def using n4 w4 by auto
  have w1: "365 * r1 \<le> d3" "d3 < 365 * r1 + 365"
    using div_window [of 365 d3] unfolding r1_def by linarith+
  have r1: "0 \<le> r1" "r1 \<le> 4"
    using w1 d3 by linarith+
  have n1: "n1 = (if r1 = 4 then 3 else r1)"
    unfolding n1_def using r1 by (rule cut4)
  have d4: "0 \<le> d4" "d4 \<le> 365" "d4 = 365 \<longrightarrow> n1 = 3 \<and> d3 \<ge> 1460"
    unfolding d4_def n1 using d3 r1 w1 by (auto split: if_splits)
  have leap: "isLeap y" if "d4 = 365"
  proof -
    from that d4 have a: "n1 = 3" "d3 \<ge> 1460" by auto
    have y4: "y = 400 * n400 + 100 * n100 + 4 * (n4 + 1)" using y a by simp
    have m4: "y mod 4 = 0"
    proof -
      have "y = 4 * (100 * n400 + 25 * n100 + (n4 + 1))" unfolding y4 by simp
      then show ?thesis by simp
    qed
    show ?thesis
    proof (cases "n4 = 24")
      case True
      with a d3 d2 have "n100 = 3" by auto
      with y4 True have "y = 400 * (n400 + 1)" by simp
      then have "y mod 400 = 0" by simp
      with m4 show ?thesis unfolding isLeap_def by simp
    next
      case False
      define k where "k = 4 * (n4 + 1)"
      from False n4 have k: "0 < k" "k < 100" unfolding k_def by auto
      have "y = k + 100 * (4 * n400 + n100)" unfolding y4 k_def by simp
      then have "y mod 100 = k mod 100" by (simp only: mod_mult_self2)
      also have "\<dots> = k" using k by simp
      finally have "y mod 100 \<noteq> 0" using k by simp
      with m4 show ?thesis unfolding isLeap_def by simp
    qed
  qed
  show ?thesis using d4 leap yd by auto
qed

lemma month_day_bounds:
  fixes day :: int
  assumes "0 \<le> day" "day \<le> 364"
  defines "month \<equiv> day div 31"
  defines "e \<equiv> daysBefore ! nat (month + 1)"
  defines "mb \<equiv> (if day \<ge> e then (month + 1, e) else (month, daysBefore ! nat month))"
  shows "1 \<le> fst mb + 1 \<and> fst mb + 1 \<le> 12 \<and> 1 \<le> day - snd mb + 1 \<and> day - snd mb + 1 \<le> 31"
proof -
  have w: "31 * month \<le> day" "day < 31 * month + 31"
    using div_window [of 31 day] unfolding month_def by linarith+
  with assms(1,2) have "0 \<le> month" "month \<le> 11" by linarith+
  then have "month = 0 \<or> month = 1 \<or> month = 2 \<or> month = 3 \<or> month = 4 \<or> month = 5
     \<or> month = 6 \<or> month = 7 \<or> month = 8 \<or> month = 9 \<or> month = 10 \<or> month = 11"
    by presburger
  then show ?thesis
    using w assms(2) unfolding mb_def e_def
    by (elim disjE) (simp_all add: daysBefore_def)
qed

lemma Date_bounds:
  assumes "Date t = (y, m, d)"
  shows "1 \<le> m \<and> m \<le> 12 \<and> 1 \<le> d \<and> d \<le> 31"
proof -
  obtain year yday where a: "absDate (localSec t div 86400) = (year, yday)"
    by (cases "absDate (localSec t div 86400)")
  from absDate_bounds [OF a] have b: "0 \<le> yday" "yday \<le> 365" "yday = 365 \<longrightarrow> isLeap year"
    by auto
  show ?thesis
  proof (cases "isLeap year \<and> yday = 31 + 29 - 1")
    case True
    with assms a show ?thesis by (simp add: Date_def)
  next
    case False
    define day where "day = (if isLeap year \<and> yday > 31 + 29 - 1 then yday - 1 else yday)"
    have day: "0 \<le> day" "day \<le> 364" unfolding day_def using b by auto
    from False assms a have "(m, d) =
       (let month = day div 31;
               e = daysBefore ! nat (month + 1);
               (month, begin) = (if day \<ge> e then (month + 1, e)
                                 else (month, daysBefore ! nat month))
           in (month + 1, day - begin + 1))"
      unfolding Date_def day_def Let_def by (auto split: prod.splits)
    then show ?thesis using month_day_bounds [OF day]
      by (simp add: Let_def split: prod.splits if_splits)
  qed
qed

lemma clock_bounds:
  "0 \<le> Hour t \<and> Hour t < 24 \<and> 0 \<le> Minute t \<and> Minute t < 60 \<and> 0 \<le> Second t \<and> Second t < 60"
proof -
  have "0 \<le> localSec t mod 86400" "localSec t mod 86400 < 86400" by simp_all
  then have "0 \<le> Hour t" "Hour t < 24"
    unfolding Hour_def using div_window [of 3600 "localSec t mod 86400"] by linarith+
  moreover have "0 \<le> localSec t mod 3600" "localSec t mod 3600 < 3600" by simp_all
  then have "0 \<le> Minute t" "Minute t < 60"
    unfolding Minute_def using div_window [of 60 "localSec t mod 3600"] by linarith+
  moreover have "0 \<le> Second t" "Second t < 60" unfolding Second_def by simp_all
  ultimately show ?thesis by simp
qed

subsection \<open>The layout of printLog\<close>

text \<open>The layout string of \<^verbatim>\<open>printLog\<close> read element by element, and the timestamp it yields.\<close>

lemma stdChunk_simps:
  "stdChunk (CHR ''2'' # CHR ''0'' # CHR ''0'' # CHR ''6'' # r) = Some (stdLongYear, r)"
  "stdChunk (CHR ''-'' # r) = None"
  "stdChunk (CHR '' '' # r) = None"
  "stdChunk (CHR '':'' # r) = None"
  "stdChunk (CHR ''1'' # CHR ''-'' # r) = Some (stdNumMonth, CHR ''-'' # r)"
  "stdChunk (CHR ''2'' # CHR '' '' # r) = Some (stdDay, CHR '' '' # r)"
  "stdChunk (CHR ''1'' # CHR ''5'' # r) = Some (stdHour, r)"
  "stdChunk (CHR ''0'' # CHR ''4'' # r) = Some (stdZeroMinute, r)"
  "stdChunk (CHR ''0'' # CHR ''5'' # r) = Some (stdZeroSecond, r)"
  "stdChunk ''.000000'' = Some (stdFracSecond0 6 CHR ''.'', [])"
  by (simp_all add: stdChunk_def chunk0_def chunk1_def chunk2_def chunkFrac_def hasPrefix_def
      isDigit_def Let_def)

lemma Format_layout:
  "Format t ''2006-1-2 15:04:05.000000'' =
     appendStd t stdLongYear @ ''-'' @ appendStd t stdNumMonth @ ''-'' @ appendStd t stdDay @ '' '' @
     appendStd t stdHour @ '':'' @ appendStd t stdZeroMinute @ '':'' @ appendStd t stdZeroSecond @
     appendStd t (stdFracSecond0 6 CHR ''.'')"
  by (simp add: Format.simps stdChunk_simps)

lemma Format_timestamp:
  assumes "nsec t < 1000000000" "year_in_range t"
  shows "Format (UTC t) ''2006-1-2 15:04:05.000000'' = spec_timestamp t"
proof -
  define u where "u = UTC t"
  obtain y m d where D: "Date u = (y, m, d)" by (cases "Date u") auto
  from Date_bounds [OF D] have md: "0 \<le> m" "0 \<le> d" by auto
  from assms(2) D have y: "0 \<le> y" "y < 10 ^ 4" by (simp_all add: year_in_range_def u_def)
  from clock_bounds [of u] have c: "0 \<le> Hour u" "Hour u < 10 ^ 2" "0 \<le> Minute u"
    "Minute u < 10 ^ 2" "0 \<le> Second u" "Second u < 10 ^ 2" by auto
  have n: "Nanosecond u = int (nsec t)" by (simp add: Nanosecond_def u_def UTC_def)
  have "Format u ''2006-1-2 15:04:05.000000'' =
      zeroPadded 4 (nat y) @ ''-'' @ utoa (nat m) @ ''-'' @ utoa (nat d) @ '' '' @
         zeroPadded 2 (nat (Hour u)) @ '':'' @ zeroPadded 2 (nat (Minute u)) @ '':'' @
         zeroPadded 2 (nat (Second u)) @ ''.'' @ zeroPadded 6 (nsec t div 1000)"
    unfolding Format_layout
    by (simp only: appendStd_def D Let_def prod.case std.case n
          appendInt_nat_padded [OF y zero_less_numeral]
          appendInt_nat_padded [OF c(1,2) zero_less_numeral]
          appendInt_nat_padded [OF c(3,4) zero_less_numeral]
          appendInt_nat_padded [OF c(5,6) zero_less_numeral]
          appendInt_nat_plain [OF md(1)] appendInt_nat_plain [OF md(2)]
          appendNano_micro [OF assms(1)] append_Cons append_Nil)
  then show ?thesis
    by (simp add: spec_timestamp_def u_def [symmetric] D)
qed

lemma spec_timestamp_shape:
  assumes "year_in_range t"
  shows "\<exists>Y M D h m s f.
     spec_timestamp t = Y @ ''-'' @ M @ ''-'' @ D @ '' '' @ h @ '':'' @ m @ '':'' @ s @ ''.'' @ f
     \<and> length Y = 4 \<and> allDigits Y
     \<and> (length M = 1 \<or> length M = 2) \<and> allDigits M \<and> hd M \<noteq> CHR ''0''
     \<and> (length D = 1 \<or> length D = 2) \<and> allDigits D \<and> hd D \<noteq> CHR ''0''
     \<and> length h = 2 \<and> allDigits h \<and> length m = 2 \<and> allDigits m
     \<and> length s = 2 \<and> allDigits s \<and> length f = 6 \<and> allDigits f"
proof -
  define u where "u = UTC t"
  obtain y mo d where D: "Date u = (y, mo, d)" by (cases "Date u") auto
  from Date_bounds [OF D] have b: "0 < nat mo" "nat mo < 100" "0 < nat d" "nat d < 100" by auto
  have M: "(length (utoa (nat mo)) = 1 \<or> length (utoa (nat mo)) = 2) \<and> hd (utoa (nat mo)) \<noteq> CHR ''0''"
    and DD: "(length (utoa (nat d)) = 1 \<or> length (utoa (nat d)) = 2) \<and> hd (utoa (nat d)) \<noteq> CHR ''0''"
    by (rule utoa_small [OF b(1,2)], rule utoa_small [OF b(3,4)])
  have e: "spec_timestamp t = zeroPadded 4 (nat y) @ ''-'' @ utoa (nat mo) @ ''-'' @ utoa (nat d) @ '' '' @
         zeroPadded 2 (nat (Hour u)) @ '':'' @ zeroPadded 2 (nat (Minute u)) @ '':'' @
         zeroPadded 2 (nat (Second u)) @ ''.'' @ zeroPadded 6 (nsec t div 1000)"
    by (simp add: spec_timestamp_def u_def [symmetric] D)
  show ?thesis
    apply (rule exI [of _ "zeroPadded 4 (nat y)"])
    apply (rule exI [of _ "utoa (nat mo)"])
    apply (rule exI [of _ "utoa (nat d)"])
    apply (rule exI [of _ "zeroPadded 2 (nat (Hour u))"])
    apply (rule exI [of _ "zeroPadded 2 (nat (Minute u))"])
    apply (rule exI [of _ "zeroPadded 2 (nat (Second u))"])
    apply (rule exI [of _ "zeroPadded 6 (nsec t div 1000)"])
    using M DD e
    apply (simp only: length_zeroPadded allDigits_zeroPadded allDigits_utoa)
    apply simp
    done
qed

subsection \<open>Commands\<close>

text \<open>What a single command does.\<close>

lemma groupAt_valid:
  "0 \<le> grp \<Longrightarrow> grp < int (length (groups w)) \<Longrightarrow> groupAt w grp = Inr (groups w ! nat grp)"
  by (simp add: groupAt_def)

lemma groupAt_invalid:
  "grp < 0 \<or> int (length (groups w)) \<le> grp \<Longrightarrow> groupAt w grp = Inl IndexOutOfRange"
  by (auto simp: groupAt_def)

lemma Fprintf_files: "files (Fprintf wr line w) \<noteq> files w"
proof
  assume "files (Fprintf wr line w) = files w"
  then have "files (Fprintf wr line w) wr = files w wr" by simp
  then show False by (simp add: Fprintf_def)
qed

lemma Fprintf_inject: "Fprintf wr l1 w = Fprintf wr l2 w \<Longrightarrow> l1 = l2"
proof -
  assume "Fprintf wr l1 w = Fprintf wr l2 w"
  then have "files (Fprintf wr l1 w) wr = files (Fprintf wr l2 w) wr" by simp
  then show ?thesis by (simp add: Fprintf_def)
qed

lemma printLog_writes:
  assumes "0 \<le> grp" "grp < int (length (groups w))"
  shows "printLog grp t msg w =
     Inr (Fprintf (out (groups w ! nat grp))
            (spec_format grp (name (groups w ! nat grp))
               (Format (UTC t) ''2006-1-2 15:04:05.000000'') msg) w)"
  using assms
  by (auto simp: printLog_def groupAt_def DefaultGroupId_def spec_format_def Let_def)

lemma printLog_valid:
  assumes "0 \<le> grp" "grp < int (length (groups w))"
  shows "\<exists>line. printLog grp t msg w = Inr (Fprintf (out (groups w ! nat grp)) line w)"
  using printLog_writes [OF assms] by blast

lemma logApi_do_length:
  "logApi_do i w = Inr w' \<Longrightarrow> length (groups w') = length (groups w)"
  by (cases i)
     (auto simp: traceMsg_do_def infoMsg_do_def cmdEnabletrace_do_def cmdEnableGroup_do_def
        printLog_def Fprintf_def Let_def split: if_splits sum.splits)

lemma logApi_do_safe:
  assumes "safeCmd (length (groups w)) i"
  shows "\<exists>w'. logApi_do i w = Inr w'"
proof (cases i)
  case (traceMsg grp t msg)
  with assms printLog_valid [of grp w t msg] show ?thesis
    by (auto simp: traceMsg_do_def groupAt_def)
next
  case (infoMsg grp t msg)
  with assms printLog_valid [of grp w t msg] show ?thesis
    by (auto simp: infoMsg_do_def groupAt_def)
next
  case (cmdEnabletrace on)
  then show ?thesis by (simp add: cmdEnabletrace_do_def)
next
  case (cmdEnableGroup grp on)
  with assms show ?thesis by (simp add: cmdEnableGroup_do_def groupAt_def)
next
  case nilApi
  with assms show ?thesis by simp
qed

lemma linesFor_append: "linesFor gs wr (xs @ ys) = linesFor gs wr xs @ linesFor gs wr ys"
  by (simp add: linesFor_def)

lemma logApi_do_live:
  assumes "live (groups w) (traceEnabled w) c"
  shows "logApi_do c w = Inr (Fprintf (sinkOf (groups w) c) (lineOf (groups w) c) w)"
proof (cases c)
  case (traceMsg grp t msg)
  with assms have v: "0 \<le> grp" "grp < int (length (groups w))" by simp_all
  from printLog_writes [OF v] groupAt_valid [OF v] assms traceMsg show ?thesis
    by (simp add: traceMsg_do_def formatted_def)
next
  case (infoMsg grp t msg)
  with assms have v: "0 \<le> grp" "grp < int (length (groups w))" by simp_all
  from printLog_writes [OF v] groupAt_valid [OF v] assms infoMsg show ?thesis
    by (simp add: infoMsg_do_def formatted_def)
qed (use assms in simp_all)

subsection \<open>The registry\<close>

text \<open>Registration, the default output, and the default group as an invariant.\<close>

lemma init_simps:
  "groups init = [defaultGroup Stdout True]" "traceEnabled init = False"
  "logstream init = []" "closed init = False" "waitGroup init = 1" "running init = True"
  "handled init = []"
  by (simp_all add: init_def reset_def declared_def)

lemma nameExists_iff: "nameExists n gs = (n \<in> name ` set gs)"
  by (induction gs) auto

lemma defaultPresent_nameExists: "defaultPresent w \<Longrightarrow> nameExists '''' (groups w)"
  by (cases "groups w") (auto simp: defaultPresent_def)

lemma RegisterGroup_duplicate:
  "n \<in> name ` set (groups w) \<Longrightarrow> RegisterGroup n wr on w = (Inl GroupNameExists, w)"
  by (simp add: RegisterGroup_def nameExists_iff)

lemma RegisterGroup_fresh:
  "groups w \<noteq> [] \<Longrightarrow> n \<notin> name ` set (groups w) \<Longrightarrow>
     RegisterGroup n wr on w =
       (Inr (int (length (groups w))),
        w\<lparr>groups := groups w @ [\<lparr>name = n, out = wr, enabled = on\<rparr>]\<rparr>)"
  by (simp add: RegisterGroup_def nameExists_iff Let_def)

lemma RegisterGroup_enabled:
  assumes "RegisterGroup n wr on w = (r, w')" "i < length (groups w)"
  shows "enabled (groups w' ! i) = enabled (groups w ! i)"
  using assms by (auto simp: RegisterGroup_def Let_def nth_append split: if_splits)

lemma SetDefaultOutput_enabled:
  assumes "i < length (groups w)"
  shows "enabled (groups (SetDefaultOutput wr w) ! i) = enabled (groups w ! i)"
  using assms by (cases i) (auto simp: SetDefaultOutput_def defaultGroup_def)

lemma defaultPresent_init: "defaultPresent init"
  by (simp add: defaultPresent_def init_simps defaultGroup_def)

lemma logApi_do_defaultPresent:
  assumes "logApi_do i w = Inr w'" "defaultPresent w"
  shows "defaultPresent w'"
proof (cases i)
  case (cmdEnableGroup grp on)
  with assms obtain g where g: "groupAt w grp = Inr g"
    and w': "w' = w\<lparr>groups := (groups w)[nat grp := g\<lparr>enabled := on\<rparr>]\<rparr>"
    by (auto simp: cmdEnableGroup_do_def split: sum.splits)
  from g have "0 \<le> grp" "grp < int (length (groups w))" "g = groups w ! nat grp"
    by (auto simp: groupAt_def split: if_splits)
  with assms(2) w' show ?thesis
    by (cases "nat grp") (auto simp: defaultPresent_def nth_list_update)
qed (use assms in \<open>auto simp: traceMsg_do_def infoMsg_do_def cmdEnabletrace_do_def
      printLog_def Fprintf_def Let_def defaultPresent_def split: if_splits sum.splits\<close>)

subsection \<open>Worker turns, schedules and the drain\<close>

text \<open>Invariants of the steps of a schedule, and what \<^verbatim>\<open>waitGroup.Wait()\<close> leaves behind.\<close>

lemma serving_init: "serving init"
  by (simp add: serving_def init_simps)

lemma logRoutine_step_cons:
  assumes "running w" "logstream w = i # rest" "logRoutine_step w = Ok w'"
  shows "logstream w' = rest \<and> handled w' = handled w @ [i] \<and> running w'
       \<and> closed w' = closed w \<and> waitGroup w' = waitGroup w
       \<and> length (groups w') = length (groups w)"
proof -
  from assms obtain v where v: "logApi_do i (w\<lparr>logstream := rest\<rparr>) = Inr v"
    and w': "w' = v\<lparr>handled := handled v @ [i]\<rparr>"
    by (auto simp: logRoutine_step_def split: sum.splits)
  from logApi_do_channel [OF v] logApi_do_length [OF v] w' assms(1) show ?thesis by simp
qed

lemma step_serving:
  assumes "serving w" "step e w = Ok w'"
  shows "serving w' \<and> handled w' @ logstream w' = handled w @ logstream w @ sent [e]"
proof (cases e)
  case (Send cmd)
  with assms show ?thesis by (auto simp: send_def serving_def split: if_splits)
next
  case Worker
  show ?thesis
  proof (cases "logstream w")
    case Nil
    with assms Worker show ?thesis by (auto simp: logRoutine_step_def serving_def)
  next
    case (Cons i rest)
    from assms Worker have "running w" "logRoutine_step w = Ok w'"
      by (simp_all add: serving_def)
    from logRoutine_step_cons [OF this(1) Cons this(2)] assms(1) Cons Worker show ?thesis
      by (simp add: serving_def)
  qed
next
  case (Register n wr on)
  with assms show ?thesis
    by (auto simp: RegisterGroup_def serving_def Let_def split: if_splits)
next
  case (SetOutput wr)
  with assms show ?thesis by (auto simp: SetDefaultOutput_def serving_def split: if_splits)
qed

lemma sent_append: "sent (es @ fs) = sent es @ sent fs"
  by (induction es rule: sent.induct) simp_all

lemma run_serving:
  assumes "serving w" "run evs w = Ok w'"
  shows "serving w' \<and> handled w' @ logstream w' = handled w @ logstream w @ sent evs"
  using assms
proof (induction evs arbitrary: w)
  case Nil
  then show ?case by simp
next
  case (Cons e es)
  from Cons.prems(2) obtain v where v: "step e w = Ok v" and r: "run es v = Ok w'"
    by (auto split: outcome.splits)
  from step_serving [OF Cons.prems(1) v]
  have sv: "serving v" and hv: "handled v @ logstream v = handled w @ logstream w @ sent [e]"
    by simp_all
  from Cons.IH [OF sv r] have "serving w'"
    and "handled w' @ logstream w' = handled v @ logstream v @ sent es" by simp_all
  with hv sent_append [of "[e]" es] show ?case by simp
qed

lemma wait_drains:
  assumes "closed w" "running w" "waitGroup w = 1" "wait w = Ok w'"
  shows "handled w' = handled w @ logstream w \<and> logstream w' = [] \<and> waitGroup w' = 0
       \<and> \<not> running w'"
  using assms
proof (induction "logstream w" arbitrary: w)
  case Nil
  then have s: "logRoutine_step w = Ok (w\<lparr>running := False, waitGroup := 0\<rparr>)"
    by (simp add: logRoutine_step_def)
  have "wait (w\<lparr>running := False, waitGroup := 0\<rparr>) = Ok (w\<lparr>running := False, waitGroup := 0\<rparr>)"
    by (subst wait.simps) simp
  with Nil s have "w' = w\<lparr>running := False, waitGroup := 0\<rparr>"
    by (subst (asm) wait.simps) simp
  with Nil show ?case by simp
next
  case (Cons i rest)
  from Cons.prems obtain v where v: "logRoutine_step w = Ok v" and wv: "wait v = Ok w'"
    by (subst (asm) wait.simps) (auto split: outcome.splits)
  from logRoutine_step_cons [OF Cons.prems(2) Cons.hyps(2) [symmetric] v]
  have f: "logstream v = rest" "handled v = handled w @ [i]" "running v"
    "closed v = closed w" "waitGroup v = waitGroup w" by simp_all
  from Cons.hyps(1) [OF f(1) [symmetric] _ f(3) _ wv] f Cons.prems
  have "handled w' = handled v @ logstream v \<and> logstream w' = [] \<and> waitGroup w' = 0
       \<and> \<not> running w'" by simp
  with f Cons.hyps(2) [symmetric] show ?case by simp
qed

lemma wait_returns:
  assumes "closed w" "running w" "waitGroup w = 1"
  shows "wait w \<noteq> Blocked
       \<and> (list_all (safeCmd (length (groups w))) (logstream w) \<longrightarrow> (\<exists>w'. wait w = Ok w'))"
  using assms
proof (induction "logstream w" arbitrary: w)
  case Nil
  then have s: "logRoutine_step w = Ok (w\<lparr>running := False, waitGroup := 0\<rparr>)"
    by (simp add: logRoutine_step_def)
  have "wait (w\<lparr>running := False, waitGroup := 0\<rparr>) = Ok (w\<lparr>running := False, waitGroup := 0\<rparr>)"
    by (subst wait.simps) simp
  with Nil s have "wait w = Ok (w\<lparr>running := False, waitGroup := 0\<rparr>)"
    by (subst wait.simps) simp
  then show ?case by simp
next
  case (Cons i rest)
  note l = Cons.hyps(2) [symmetric]
  show ?case
  proof (cases "logApi_do i (w\<lparr>logstream := rest\<rparr>)")
    case (Inl e)
    with Cons.prems l have "logRoutine_step w = Panic e"
      by (simp add: logRoutine_step_def)
    with Cons.prems have "wait w = Panic e" by (subst wait.simps) simp
    moreover have "\<not> safeCmd (length (groups w)) i"
      using logApi_do_safe [of "w\<lparr>logstream := rest\<rparr>" i] Inl by auto
    ultimately show ?thesis using l by simp
  next
    case (Inr u)
    define v where "v = u\<lparr>handled := handled u @ [i]\<rparr>"
    from Inr Cons.prems l have v: "logRoutine_step w = Ok v"
      by (simp add: logRoutine_step_def v_def)
    from logRoutine_step_cons [OF Cons.prems(2) l v]
    have f: "logstream v = rest" "running v" "closed v = closed w" "waitGroup v = waitGroup w"
      "length (groups v) = length (groups w)" by simp_all
    from Cons.prems v have w: "wait w = wait v" by (subst wait.simps) simp
    from Cons.hyps(1) [OF f(1) [symmetric] _ f(2)] f Cons.prems
    have "wait v \<noteq> Blocked
       \<and> (list_all (safeCmd (length (groups v))) (logstream v) \<longrightarrow> (\<exists>w'. wait v = Ok w'))"
      by simp
    with w f l show ?thesis by simp
  qed
qed

lemma logRoutine_step_live:
  assumes "running w" "logstream w = c # rest" "live (groups w) (traceEnabled w) c"
  shows "\<exists>w'. logRoutine_step w = Ok w' \<and> groups w' = groups w
           \<and> traceEnabled w' = traceEnabled w \<and> logstream w' = rest
           \<and> running w' \<and> closed w' = closed w \<and> waitGroup w' = waitGroup w
           \<and> (\<forall>wr. files w' wr = files w wr @ linesFor (groups w) wr [c])"
proof -
  have "live (groups (w\<lparr>logstream := rest\<rparr>)) (traceEnabled (w\<lparr>logstream := rest\<rparr>)) c"
    using assms(3) by simp
  from logApi_do_live [OF this] assms(1,2) show ?thesis
    by (simp add: logRoutine_step_def Fprintf_def linesFor_def)
qed

lemma run_live:
  assumes "serving w" "\<forall>e\<in>set evs. queueOnly e"
    and "\<forall>c\<in>set (logstream w @ sent evs). live (groups w) (traceEnabled w) c"
    and "run evs w \<noteq> Blocked"
  shows "\<exists>w' H. run evs w = Ok w' \<and> serving w' \<and> groups w' = groups w
           \<and> traceEnabled w' = traceEnabled w
           \<and> H @ logstream w' = logstream w @ sent evs
           \<and> (\<forall>wr. files w' wr = files w wr @ linesFor (groups w) wr H)"
  using assms
proof (induction evs arbitrary: w)
  case Nil
  then show ?case by (auto simp: linesFor_def intro: exI [of _ "[]"])
next
  case step: (Cons e es)
  have "\<exists>v h. step e w = Ok v \<and> serving v \<and> groups v = groups w
          \<and> traceEnabled v = traceEnabled w
          \<and> h @ logstream v = logstream w @ sent [e]
          \<and> (\<forall>wr. files v wr = files w wr @ linesFor (groups w) wr h)"
  proof (cases e)
    case (Send cmd)
    with step.prems(1,4) have "step e w = Ok (w\<lparr>logstream := logstream w @ [cmd]\<rparr>)"
      by (auto simp: send_def serving_def split: if_splits)
    with step.prems(1) Send show ?thesis
      by (auto simp: serving_def linesFor_def intro!: exI [of _ "[]"])
  next
    case Worker
    show ?thesis
    proof (cases "logstream w")
      case Nil
      with step.prems(1,4) Worker show ?thesis
        by (auto simp: logRoutine_step_def serving_def)
    next
      case (Cons c rest)
      with step.prems(3) have "live (groups w) (traceEnabled w) c" by simp
      from logRoutine_step_live [OF _ Cons this] step.prems(1) Worker Cons show ?thesis
        by (auto simp: serving_def intro!: exI [of _ "[c]"])
    qed
  next
    case (Register n wr on)
    with step.prems(2) show ?thesis by simp
  next
    case (SetOutput wr)
    with step.prems(2) show ?thesis by simp
  qed
  then obtain v h where v: "step e w = Ok v" "serving v" "groups v = groups w"
    "traceEnabled v = traceEnabled w" "h @ logstream v = logstream w @ sent [e]"
    "\<forall>wr. files v wr = files w wr @ linesFor (groups w) wr h" by blast
  have s: "sent (e # es) = sent [e] @ sent es"
    using sent_append [of "[e]" es] by simp
  have "set (logstream v) \<subseteq> set (h @ logstream v)" by simp
  also have "\<dots> = set (logstream w @ sent [e])" by (simp only: v(5))
  finally have "set (logstream v @ sent es) \<subseteq> set (logstream w @ sent (e # es))"
    using s by auto
  with step.prems(3) v(3,4)
  have l: "\<forall>c\<in>set (logstream v @ sent es). live (groups v) (traceEnabled v) c" by auto
  from step.prems(2) have q: "\<forall>e\<in>set es. queueOnly e" by simp
  from step.prems(4) v(1) have b: "run es v \<noteq> Blocked" by simp
  from step.IH [OF v(2) q l b] obtain w' H where w': "run es v = Ok w'" "serving w'"
    "groups w' = groups v" "traceEnabled w' = traceEnabled v"
    "H @ logstream w' = logstream v @ sent es"
    "\<forall>wr. files w' wr = files v wr @ linesFor (groups v) wr H" by blast
  have "(h @ H) @ logstream w' = logstream w @ sent (e # es)"
    using w'(5) v(5) s by simp
  moreover have "\<forall>wr. files w' wr = files w wr @ linesFor (groups w) wr (h @ H)"
    using w'(6) v(6) v(3) by (simp add: linesFor_append)
  ultimately show ?case using v w' by (auto intro!: exI [of _ "h @ H"])
qed

lemma wait_live:
  assumes "closed w" "running w" "waitGroup w = 1"
    and "\<forall>c\<in>set (logstream w). live (groups w) (traceEnabled w) c"
  shows "\<exists>w'. wait w = Ok w'
           \<and> (\<forall>wr. files w' wr = files w wr @ linesFor (groups w) wr (logstream w))"
  using assms
proof (induction "logstream w" arbitrary: w)
  case Nil
  then have s: "logRoutine_step w = Ok (w\<lparr>running := False, waitGroup := 0\<rparr>)"
    by (simp add: logRoutine_step_def)
  have "wait (w\<lparr>running := False, waitGroup := 0\<rparr>) = Ok (w\<lparr>running := False, waitGroup := 0\<rparr>)"
    by (subst wait.simps) simp
  with Nil s have "wait w = Ok (w\<lparr>running := False, waitGroup := 0\<rparr>)"
    by (subst wait.simps) simp
  with Nil.hyps show ?case by (simp add: linesFor_def)
next
  case (Cons c rest)
  note l = Cons.hyps(2) [symmetric]
  from Cons.prems(4) l have "live (groups w) (traceEnabled w) c" by simp
  from logRoutine_step_live [OF Cons.prems(2) l this]
  obtain v where v: "logRoutine_step w = Ok v" "groups v = groups w"
    "traceEnabled v = traceEnabled w" "logstream v = rest" "running v"
    "closed v = closed w" "waitGroup v = waitGroup w"
    "\<forall>wr. files v wr = files w wr @ linesFor (groups w) wr [c]" by blast
  from Cons.prems v(1) have w: "wait w = wait v" by (subst wait.simps) simp
  have "\<forall>c\<in>set (logstream v). live (groups v) (traceEnabled v) c"
    using Cons.prems(4) l v(2,3,4) by simp
  from Cons.hyps(1) [OF v(4) [symmetric] _ v(5) _ this] v(6,7) Cons.prems(1,3)
  obtain w' where w': "wait v = Ok w'"
    "\<forall>wr. files w' wr = files v wr @ linesFor (groups v) wr (logstream v)" by auto
  have "\<forall>wr. files w' wr = files w wr @ linesFor (groups w) wr (logstream w)"
    using w'(2) v(8) v(2,4) l linesFor_append [of "groups w" _ "[c]" rest] by simp
  with w w'(1) show ?case by simp
qed

lemma step_defaultPresent:
  assumes "step e w = Ok w'" "defaultPresent w"
  shows "defaultPresent w'"
proof (cases e)
  case (Send cmd)
  with assms show ?thesis by (auto simp: send_def defaultPresent_def split: if_splits)
next
  case Worker
  show ?thesis
  proof (cases "logstream w")
    case Nil
    with assms Worker show ?thesis
      by (auto simp: logRoutine_step_def defaultPresent_def split: if_splits)
  next
    case (Cons i rest)
    with assms Worker obtain v where v: "logApi_do i (w\<lparr>logstream := rest\<rparr>) = Inr v"
      and w': "w' = v\<lparr>handled := handled v @ [i]\<rparr>"
      by (auto simp: logRoutine_step_def split: if_splits sum.splits)
    have "defaultPresent (w\<lparr>logstream := rest\<rparr>)"
      using assms(2) by (simp add: defaultPresent_def)
    from logApi_do_defaultPresent [OF v this] w' show ?thesis
      by (simp add: defaultPresent_def)
  qed
next
  case (Register n wr on)
  with assms show ?thesis
    by (auto simp: RegisterGroup_def defaultPresent_def Let_def nth_append split: if_splits)
next
  case (SetOutput wr)
  with assms show ?thesis
    by (auto simp: SetDefaultOutput_def defaultPresent_def defaultGroup_def split: if_splits)
qed

lemma run_defaultPresent:
  "run evs w = Ok w' \<Longrightarrow> defaultPresent w \<Longrightarrow> defaultPresent w'"
proof (induction evs arbitrary: w)
  case Nil
  then show ?case by simp
next
  case (Cons e es)
  from Cons.prems(1) obtain v where v: "step e w = Ok v" and r: "run es v = Ok w'"
    by (auto split: outcome.splits)
  from Cons.IH [OF r step_defaultPresent [OF v Cons.prems(2)]] show ?case .
qed

subsection \<open>The sample inputs\<close>

text \<open>The sample clock reading and states, evaluated.\<close>

lemma testWorld_groups:
  "groups testWorld = [defaultGroup Stdout True, \<lparr>name = ''test'', out = Writer 1, enabled = True\<rparr>]"
  by (simp add: testWorld_def RegisterGroup_def init_simps defaultGroup_def Let_def)

lemma testWorld_simps:
  "traceEnabled testWorld = False" "logstream testWorld = []" "closed testWorld = False"
  "waitGroup testWorld = 1" "running testWorld = True" "handled testWorld = []"
  "files testWorld = (\<lambda>_. [])"
  by (simp_all add: testWorld_def RegisterGroup_def init_def reset_def declared_def Let_def)

lemma sampleTime_Date: "Date (UTC sampleTime) = (2026, 10, 31)"
  by (simp add: sampleTime_def UTC_def Date_def absDate_def localSec_def isLeap_def
      daysBefore_def Let_def)

lemma sampleTime_clock:
  "Hour (UTC sampleTime) = 1" "Minute (UTC sampleTime) = 2" "Second (UTC sampleTime) = 3"
  by (simp_all add: sampleTime_def UTC_def Hour_def Minute_def Second_def localSec_def)

lemma sampleTime_range: "nsec sampleTime < 1000000000" "year_in_range sampleTime"
  by (simp_all add: year_in_range_def sampleTime_Date) (simp add: sampleTime_def)

lemma utoa_samples: "utoa 10 = ''10''" "utoa 31 = ''31''"
  by (simp_all add: utoa.simps digit_def)

lemma sampleTime_timestamp: "spec_timestamp sampleTime = ''2026-10-31 01:02:03.001234''"
  by (simp add: spec_timestamp_def sampleTime_Date sampleTime_clock utoa_samples
        zeroPadded_6 zeroPadded_4 zeroPadded_2 digit_def)
     (simp add: sampleTime_def)

lemma sampleTime_Format:
  "Format (UTC sampleTime) ''2006-1-2 15:04:05.000000'' = ''2026-10-31 01:02:03.001234''"
  using Format_timestamp [OF sampleTime_range] by (simp only: sampleTime_timestamp)

section \<open>Claims\<close>

text \<open>
  C1. Severity gating. When the worker runs the \<^verbatim>\<open>do\<close> of a trace command whose
  group exists, the line is written if and only if \<^verbatim>\<open>traceEnabled\<close> holds and the
  group is enabled, and otherwise the state is left as it was; for an info command the
  line is written if and only if the group is enabled, and setting \<^verbatim>\<open>traceEnabled\<close>
  to any value changes nothing in what the info command does.
\<close>

theorem severity_gating:
  assumes "0 \<le> grp" and "grp < int (length (groups w))"
  shows "(\<exists>w'. logApi_do (traceMsg grp t msg) w = Inr w'
            \<and> (files w' \<noteq> files w) = (traceEnabled w \<and> enabled (groups w ! nat grp))
            \<and> (if traceEnabled w \<and> enabled (groups w ! nat grp)
                then printLog grp t msg w = Inr w' else w' = w))
       \<and> (\<exists>w'. logApi_do (infoMsg grp t msg) w = Inr w'
            \<and> (files w' \<noteq> files w) = enabled (groups w ! nat grp)
            \<and> (if enabled (groups w ! nat grp)
                then printLog grp t msg w = Inr w' else w' = w))
       \<and> logApi_do (infoMsg grp t msg) (w\<lparr>traceEnabled := b\<rparr>) =
           map_sum id (\<lambda>w'. w'\<lparr>traceEnabled := b\<rparr>) (logApi_do (infoMsg grp t msg) w)"
proof -
  obtain line where p: "printLog grp t msg w = Inr (Fprintf (out (groups w ! nat grp)) line w)"
    using printLog_valid [OF assms] by blast
  have g: "groupAt w grp = Inr (groups w ! nat grp)"
    using assms by (rule groupAt_valid)
  have a: "\<exists>w'. logApi_do (traceMsg grp t msg) w = Inr w'
            \<and> (files w' \<noteq> files w) = (traceEnabled w \<and> enabled (groups w ! nat grp))
            \<and> (if traceEnabled w \<and> enabled (groups w ! nat grp)
                then printLog grp t msg w = Inr w' else w' = w)"
    by (simp add: traceMsg_do_def g p Fprintf_files)
  have b: "\<exists>w'. logApi_do (infoMsg grp t msg) w = Inr w'
            \<and> (files w' \<noteq> files w) = enabled (groups w ! nat grp)
            \<and> (if enabled (groups w ! nat grp)
                then printLog grp t msg w = Inr w' else w' = w)"
    by (simp add: infoMsg_do_def g p Fprintf_files)
  have c: "logApi_do (infoMsg grp t msg) (w\<lparr>traceEnabled := b\<rparr>) =
           map_sum id (\<lambda>w'. w'\<lparr>traceEnabled := b\<rparr>) (logApi_do (infoMsg grp t msg) w)"
    by (simp add: infoMsg_do_def groupAt_def printLog_def Fprintf_def Let_def)
  from a b c show ?thesis by blast
qed

theorem severity_gating_witness:
  "(0::int) \<le> 0 \<and> 0 < int (length (groups init))
   \<and> logApi_do (traceMsg 0 sampleTime ''Test trace'') init = Inr init
   \<and> logApi_do (infoMsg 0 sampleTime ''Test info'') init = printLog 0 sampleTime ''Test info'' init
   \<and> logApi_do (traceMsg 0 sampleTime ''Test trace'') (init\<lparr>traceEnabled := True\<rparr>) =
        printLog 0 sampleTime ''Test trace'' (init\<lparr>traceEnabled := True\<rparr>)"
proof -
  have h: "(0::int) \<le> 0" "0 < int (length (groups init))"
    "0 < int (length (groups (init\<lparr>traceEnabled := True\<rparr>)))"
    by (simp_all add: init_simps)
  from severity_gating [OF h(1,2), where t = sampleTime and msg = "''Test trace''" and b = False]
       severity_gating [OF h(1,2), where t = sampleTime and msg = "''Test info''" and b = False]
       severity_gating [OF h(1,3), where t = sampleTime and msg = "''Test trace''" and b = True]
  show ?thesis
    using h by (auto simp: init_simps defaultGroup_def)
qed

text \<open>
  C2. Drain completeness. Take any schedule of sends, worker turns, registrations and
  output replacements that runs from a state whose channel is open and whose worker is
  running. When the \<^verbatim>\<open>Done\<close> that follows returns, the worker has run every command
  that was buffered at the start or sent during the schedule, in the order of sending,
  and the buffer is empty. \<^verbatim>\<open>Done\<close> never waits forever, and it returns whenever
  the commands still buffered name existing groups and are not nil (a panic of a
  command ends the program instead).
\<close>

theorem drain_completeness:
  assumes "serving w0" and "run evs w0 = Ok w"
  shows "(\<forall>w'. Done w = Ok w' \<longrightarrow>
            handled w' = handled w0 @ logstream w0 @ sent evs
            \<and> logstream w' = [] \<and> waitGroup w' = 0)
       \<and> Done w \<noteq> Blocked
       \<and> (list_all (safeCmd (length (groups w))) (logstream w) \<longrightarrow> (\<exists>w'. Done w = Ok w'))"
proof -
  from run_serving [OF assms] have s: "serving w"
    and h: "handled w @ logstream w = handled w0 @ logstream w0 @ sent evs" by simp_all
  define c where "c = w\<lparr>closed := True\<rparr>"
  from s have d: "Done w = wait c" and c: "closed c" "running c" "waitGroup c = 1"
    by (simp_all add: Done_def serving_def c_def)
  have e: "handled c = handled w" "logstream c = logstream w" "groups c = groups w"
    by (simp_all add: c_def)
  from wait_drains [OF c] wait_returns [OF c] h show ?thesis
    unfolding d e by auto
qed

theorem drain_completeness_witness:
  "serving init
   \<and> run [Send (cmdEnableGroup 0 False), Worker, Send (cmdEnabletrace True),
           Send (infoMsg 0 sampleTime ''Test info'')] init =
       Ok (init\<lparr>groups := [defaultGroup Stdout False],
                logstream := [cmdEnabletrace True, infoMsg 0 sampleTime ''Test info''],
                handled := [cmdEnableGroup 0 False]\<rparr>)
   \<and> (\<exists>w'. Done (init\<lparr>groups := [defaultGroup Stdout False],
                logstream := [cmdEnabletrace True, infoMsg 0 sampleTime ''Test info''],
                handled := [cmdEnableGroup 0 False]\<rparr>) = Ok w'
          \<and> handled w' = [cmdEnableGroup 0 False, cmdEnabletrace True,
                            infoMsg 0 sampleTime ''Test info'']
          \<and> logstream w' = [])"
proof -
  have r: "run [Send (cmdEnableGroup 0 False), Worker, Send (cmdEnabletrace True),
           Send (infoMsg 0 sampleTime ''Test info'')] init =
       Ok (init\<lparr>groups := [defaultGroup Stdout False],
                logstream := [cmdEnabletrace True, infoMsg 0 sampleTime ''Test info''],
                handled := [cmdEnableGroup 0 False]\<rparr>)"
    by (simp add: send_def logRoutine_step_def cmdEnableGroup_do_def groupAt_def init_simps
          chanBufSize_def defaultGroup_def)
  from drain_completeness [OF serving_init r] show ?thesis
    using serving_init r by (auto simp: init_simps defaultGroup_def)
qed

text \<open>
  C3. Order preservation. Take a schedule of sends and worker turns only, from a state
  with an empty buffer, in which every command sent is a log command of an existing,
  enabled group (and tracing is on if it is a trace command). Then the schedule followed
  by \<^verbatim>\<open>Done\<close> returns, and every writer has received, after what it held before,
  exactly the formatted lines of the commands sent to it, in the order of sending.
\<close>

theorem order_preservation:
  assumes "serving w0" and "logstream w0 = []"
    and "\<forall>e\<in>set evs. queueOnly e"
    and "\<forall>c\<in>set (sent evs). live (groups w0) (traceEnabled w0) c"
    and "run evs w0 \<noteq> Blocked"
  shows "\<exists>w'. thenDone evs w0 = Ok w'
           \<and> (\<forall>wr. files w' wr = files w0 wr @ linesFor (groups w0) wr (sent evs))"
proof -
  from assms(2,4)
  have "\<forall>c\<in>set (logstream w0 @ sent evs). live (groups w0) (traceEnabled w0) c" by simp
  from run_live [OF assms(1,3) this assms(5)] assms(2)
  obtain w H where w: "run evs w0 = Ok w" "serving w" "groups w = groups w0"
    "traceEnabled w = traceEnabled w0" "H @ logstream w = sent evs"
    "\<forall>wr. files w wr = files w0 wr @ linesFor (groups w0) wr H" by auto
  define c where "c = w\<lparr>closed := True\<rparr>"
  from w(2) have d: "Done w = wait c" and c: "closed c" "running c" "waitGroup c = 1"
    by (simp_all add: Done_def serving_def c_def)
  have e: "logstream c = logstream w" "groups c = groups w" "traceEnabled c = traceEnabled w"
    "files c = files w"
    by (simp_all add: c_def)
  have "set (logstream w) \<subseteq> set (sent evs)" using w(5) by (metis set_append sup_ge2)
  with assms(4) w(3,4) e
  have "\<forall>x\<in>set (logstream c). live (groups c) (traceEnabled c) x" by auto
  from wait_live [OF c this] obtain w' where w': "wait c = Ok w'"
    "\<forall>wr. files w' wr = files c wr @ linesFor (groups c) wr (logstream c)" by blast
  have "\<forall>wr. files w' wr = files w0 wr @ linesFor (groups w0) wr (sent evs)"
    using w'(2) w(6) w(3) e linesFor_append [of "groups w0" _ H "logstream w"] w(5) by simp
  with w(1) d w'(1) show ?thesis by (simp add: thenDone_def)
qed

theorem order_preservation_witness:
  "serving tracingWorld \<and> logstream tracingWorld = []
   \<and> run [Send (traceMsg 1 sampleTime ''Test trace''), Send (infoMsg 1 sampleTime ''Test info''),
           Worker, Send (infoMsg 0 sampleTime ''Test info number 4'')] tracingWorld \<noteq> Blocked
   \<and> (\<exists>w'. thenDone [Send (traceMsg 1 sampleTime ''Test trace''),
                        Send (infoMsg 1 sampleTime ''Test info''),
                        Worker, Send (infoMsg 0 sampleTime ''Test info number 4'')]
                tracingWorld = Ok w'
          \<and> files w' (Writer 1) =
               [''2026-10-31 01:02:03.001234 [test] Test trace\<newline>'',
                ''2026-10-31 01:02:03.001234 [test] Test info\<newline>'']
          \<and> files w' Stdout = [''2026-10-31 01:02:03.001234 Test info number 4\<newline>''])"
proof -
  let ?evs = "[Send (traceMsg 1 sampleTime ''Test trace''),
               Send (infoMsg 1 sampleTime ''Test info''),
               Worker, Send (infoMsg 0 sampleTime ''Test info number 4'')]"
  have g: "groups tracingWorld =
      [defaultGroup Stdout True, \<lparr>name = ''test'', out = Writer 1, enabled = True\<rparr>]"
    "traceEnabled tracingWorld" "files tracingWorld = (\<lambda>_. [])"
    by (simp_all add: tracingWorld_def testWorld_groups testWorld_simps)
  have h1: "serving tracingWorld" and h2: "logstream tracingWorld = []"
    by (simp_all add: serving_def tracingWorld_def testWorld_simps)
  have h3: "\<forall>e\<in>set ?evs. queueOnly e" by simp
  have h4: "\<forall>c\<in>set (sent ?evs). live (groups tracingWorld) (traceEnabled tracingWorld) c"
    by (simp add: g defaultGroup_def)
  have h5: "run ?evs tracingWorld \<noteq> Blocked"
    by (simp add: send_def logRoutine_step_def traceMsg_do_def groupAt_def printLog_def Fprintf_def
          tracingWorld_def testWorld_groups testWorld_simps chanBufSize_def
          DefaultGroupId_def Let_def)
  from order_preservation [OF h1 h2 h3 h4 h5] show ?thesis
    using h1 h2 h5
    by (auto simp: g linesFor_def formatted_def spec_format_def sampleTime_Format
          defaultGroup_def)
qed

text \<open>
  C4. Duplicate registration. In a state that has the default group (every state
  reached from \<^verbatim>\<open>init\<close> has it, by \<open>run_defaultPresent\<close>), \<^verbatim>\<open>RegisterGroup\<close>
  panics when the name is that of a registered group, and so for the empty name; the
  panic leaves the state as it was, and a registration with a fresh name after it
  appends the group and returns the next index.
\<close>

theorem duplicate_registration:
  assumes "defaultPresent w"
  shows "(n \<in> name ` set (groups w) \<longrightarrow>
            RegisterGroup n wr on w = (Inl GroupNameExists, w))
       \<and> RegisterGroup '''' wr on w = (Inl GroupNameExists, w)
       \<and> (n \<in> name ` set (groups w) \<and> fresh \<notin> name ` set (groups w) \<longrightarrow>
            RegisterGroup fresh wr' on' (snd (RegisterGroup n wr on w)) =
              (Inr (int (length (groups w))),
               w\<lparr>groups := groups w @ [\<lparr>name = fresh, out = wr', enabled = on'\<rparr>]\<rparr>))"
proof -
  have ne: "groups w \<noteq> []" using assms by (simp add: defaultPresent_def)
  have "RegisterGroup '''' wr on w = (Inl GroupNameExists, w)"
    using defaultPresent_nameExists [OF assms] by (simp add: RegisterGroup_def)
  then show ?thesis
    by (auto simp: RegisterGroup_duplicate RegisterGroup_fresh [OF ne])
qed

theorem duplicate_registration_witness:
  "defaultPresent testWorld
   \<and> RegisterGroup ''test'' (Writer 2) False testWorld = (Inl GroupNameExists, testWorld)
   \<and> RegisterGroup '''' (Writer 2) False testWorld = (Inl GroupNameExists, testWorld)
   \<and> RegisterGroup ''audit'' (Writer 3) True
        (snd (RegisterGroup ''test'' (Writer 2) False testWorld)) =
       (Inr 2, testWorld\<lparr>groups := groups testWorld @
                  [\<lparr>name = ''audit'', out = Writer 3, enabled = True\<rparr>]\<rparr>)"
proof -
  have h: "defaultPresent testWorld"
    by (simp add: defaultPresent_def testWorld_groups defaultGroup_def)
  from duplicate_registration [OF h, of "''test''" "Writer 2" False "''audit''" "Writer 3" True]
  show ?thesis using h by (auto simp: testWorld_groups defaultGroup_def)
qed

text \<open>
  C5. Line shape. For an existing group, a nanosecond count below one second and a
  UTC year of at most four digits, \<^verbatim>\<open>printLog\<close> writes to the group's writer the one
  line \<open>timestamp text\<close> (default group) or \<open>timestamp [name] text\<close> (named
  group) ended by a newline; the timestamp is that of the instant in UTC, whatever the
  location of the time value: a four-digit year, the month and the day in one or two
  digits without a leading zero, hour, minute and second in two digits each, and six
  fractional digits.
\<close>

theorem printLog_line_format:
  assumes "0 \<le> grp" and "grp < int (length (groups w))"
    and "nsec t < 1000000000" and "year_in_range t"
  shows "printLog grp t msg w =
           Inr (Fprintf (out (groups w ! nat grp))
                  (spec_format grp (name (groups w ! nat grp)) (spec_timestamp t) msg) w)
         \<and> (\<exists>Y M D h m s f.
               spec_timestamp t =
                 Y @ ''-'' @ M @ ''-'' @ D @ '' '' @ h @ '':'' @ m @ '':'' @ s @ ''.'' @ f
               \<and> length Y = 4 \<and> allDigits Y
               \<and> (length M = 1 \<or> length M = 2) \<and> allDigits M \<and> hd M \<noteq> CHR ''0''
               \<and> (length D = 1 \<or> length D = 2) \<and> allDigits D \<and> hd D \<noteq> CHR ''0''
               \<and> length h = 2 \<and> allDigits h \<and> length m = 2 \<and> allDigits m
               \<and> length s = 2 \<and> allDigits s \<and> length f = 6 \<and> allDigits f)
         \<and> spec_timestamp (t\<lparr>offset := z\<rparr>) = spec_timestamp t"
proof (intro conjI)
  show "printLog grp t msg w =
           Inr (Fprintf (out (groups w ! nat grp))
                  (spec_format grp (name (groups w ! nat grp)) (spec_timestamp t) msg) w)"
    using printLog_writes [OF assms(1,2)] Format_timestamp [OF assms(3,4)] by simp
next
  show "\<exists>Y M D h m s f.
               spec_timestamp t =
                 Y @ ''-'' @ M @ ''-'' @ D @ '' '' @ h @ '':'' @ m @ '':'' @ s @ ''.'' @ f
               \<and> length Y = 4 \<and> allDigits Y
               \<and> (length M = 1 \<or> length M = 2) \<and> allDigits M \<and> hd M \<noteq> CHR ''0''
               \<and> (length D = 1 \<or> length D = 2) \<and> allDigits D \<and> hd D \<noteq> CHR ''0''
               \<and> length h = 2 \<and> allDigits h \<and> length m = 2 \<and> allDigits m
               \<and> length s = 2 \<and> allDigits s \<and> length f = 6 \<and> allDigits f"
    using assms(4) by (rule spec_timestamp_shape)
next
  show "spec_timestamp (t\<lparr>offset := z\<rparr>) = spec_timestamp t"
    by (simp add: spec_timestamp_def UTC_def)
qed

theorem printLog_line_format_witness:
  "(0::int) \<le> 1 \<and> 1 < int (length (groups testWorld))
   \<and> nsec sampleTime < 1000000000 \<and> year_in_range sampleTime
   \<and> printLog 1 sampleTime ''Test info'' testWorld =
       Inr (Fprintf (Writer 1) ''2026-10-31 01:02:03.001234 [test] Test info\<newline>'' testWorld)
   \<and> printLog 0 sampleTime ''Test info'' testWorld =
       Inr (Fprintf Stdout ''2026-10-31 01:02:03.001234 Test info\<newline>'' testWorld)"
proof -
  have h: "(0::int) \<le> 1" "1 < int (length (groups testWorld))"
    "(0::int) \<le> 0" "0 < int (length (groups testWorld))"
    by (simp_all add: testWorld_groups)
  from printLog_line_format [OF h(1,2) sampleTime_range, where msg = "''Test info''" and z = 0]
       printLog_line_format [OF h(3,4) sampleTime_range, where msg = "''Test info''" and z = 0]
  show ?thesis
    using h sampleTime_range
    by (simp add: testWorld_groups spec_format_def sampleTime_timestamp defaultGroup_def)
qed

text \<open>
  C6. Wire-level line format. The claim gives the default group's line an opening
  bracket between timestamp and message. The line \<^verbatim>\<open>printLog\<close> writes for the default
  group has no bracket at all:
\<close>

theorem default_line_without_bracket:
  "printLog 0 sampleTime ''Test info'' init =
     Inr (Fprintf Stdout ''2026-10-31 01:02:03.001234 Test info\<newline>'' init)
   \<and> CHR ''['' \<notin> set ''2026-10-31 01:02:03.001234 Test info\<newline>''
   \<and> printLog 0 sampleTime ''Test info'' init \<noteq>
       Inr (Fprintf Stdout (wire_format 0 '''' ''2026-10-31 01:02:03.001234'' ''Test info'') init)"
proof -
  have v: "(0::int) \<le> 0" "0 < int (length (groups init))" by (simp_all add: init_simps)
  have p: "printLog 0 sampleTime ''Test info'' init =
     Inr (Fprintf Stdout ''2026-10-31 01:02:03.001234 Test info\<newline>'' init)"
    using printLog_writes [OF v, of sampleTime "''Test info''"]
    by (simp add: init_simps defaultGroup_def spec_format_def sampleTime_Format)
  have "''2026-10-31 01:02:03.001234 Test info\<newline>'' \<noteq>
      wire_format 0 '''' ''2026-10-31 01:02:03.001234'' ''Test info''"
    by (simp add: wire_format_def)
  then have "Fprintf Stdout ''2026-10-31 01:02:03.001234 Test info\<newline>'' init \<noteq>
      Fprintf Stdout (wire_format 0 '''' ''2026-10-31 01:02:03.001234'' ''Test info'') init"
    using Fprintf_inject by blast
  with p show ?thesis by simp
qed

text \<open>
  C6, amended: the default group's line is the timestamp, one space, the message and a
  newline; a named group's line has the form the claim gives.
\<close>

theorem wire_line_format:
  assumes "0 \<le> grp" and "grp < int (length (groups w))"
    and "nsec t < 1000000000" and "year_in_range t"
  shows "printLog grp t msg w =
           Inr (Fprintf (out (groups w ! nat grp))
                  (if grp = 0 then spec_timestamp t @ '' '' @ msg @ ''\<newline>''
                   else wire_format grp (name (groups w ! nat grp)) (spec_timestamp t) msg) w)"
  using printLog_writes [OF assms(1,2)] Format_timestamp [OF assms(3,4)]
  by (simp add: spec_format_def wire_format_def)

theorem wire_line_format_witness:
  "(0::int) \<le> 1 \<and> 1 < int (length (groups testWorld))
   \<and> nsec sampleTime < 1000000000 \<and> year_in_range sampleTime
   \<and> printLog 1 sampleTime ''Test trace number 3 after others'' testWorld =
       Inr (Fprintf (Writer 1)
              ''2026-10-31 01:02:03.001234 [test] Test trace number 3 after others\<newline>''
              testWorld)
   \<and> printLog 0 sampleTime ''Test trace number 3 after others'' testWorld =
       Inr (Fprintf Stdout
              ''2026-10-31 01:02:03.001234 Test trace number 3 after others\<newline>''
              testWorld)"
proof -
  have h: "(0::int) \<le> 1" "1 < int (length (groups testWorld))"
    "(0::int) \<le> 0" "0 < int (length (groups testWorld))"
    by (simp_all add: testWorld_groups)
  from wire_line_format [OF h(1,2) sampleTime_range, of "''Test trace number 3 after others''"]
       wire_line_format [OF h(3,4) sampleTime_range, of "''Test trace number 3 after others''"]
  show ?thesis
    using h sampleTime_range
    by (simp add: testWorld_groups wire_format_def sampleTime_timestamp defaultGroup_def)
qed

text \<open>
  C7. Worker-only mutation. The claim has every public operation that changes the
  registry go through the queue. \<^verbatim>\<open>RegisterGroup\<close> and \<^verbatim>\<open>SetDefaultOutput\<close> change
  the registry in the caller and send nothing:
\<close>

theorem registration_bypasses_queue:
  "groups (snd (RegisterGroup ''test'' (Writer 1) True init)) \<noteq> groups init
   \<and> logstream (snd (RegisterGroup ''test'' (Writer 1) True init)) = logstream init
   \<and> groups (SetDefaultOutput (Writer 1) init) \<noteq> groups init
   \<and> logstream (SetDefaultOutput (Writer 1) init) = logstream init"
  by (simp add: RegisterGroup_def SetDefaultOutput_def init_simps defaultGroup_def Let_def)

text \<open>
  C7, amended: no step other than a worker turn changes \<^verbatim>\<open>traceEnabled\<close>, the enabled
  flag of a registered group or what a writer has received. A send only appends its
  command to the buffer, and \<^verbatim>\<open>EnableTrace\<close>, \<^verbatim>\<open>EnableGroup\<close> and the logging calls
  are sends; a registration and an output replacement leave the buffer as it is.
\<close>

theorem flags_change_only_in_worker:
  assumes "step e w = Ok w'" and "e \<noteq> Worker"
  shows "traceEnabled w' = traceEnabled w
       \<and> (\<forall>i. i < length (groups w) \<longrightarrow> enabled (groups w' ! i) = enabled (groups w ! i))
       \<and> files w' = files w
       \<and> (case e of
            Send cmd \<Rightarrow> groups w' = groups w \<and> logstream w' = logstream w @ [cmd]
          | _ \<Rightarrow> logstream w' = logstream w)
       \<and> EnableTrace on w = step (Send (cmdEnabletrace on)) w
       \<and> EnableGroup grp on w = step (Send (cmdEnableGroup grp on)) w
       \<and> log F grp trace format a now w =
           step (Send (traceMsg grp now
                   (if length format > 0 then Sprintf F format a else Sprint F a))) w
       \<and> log F grp info format a now w =
           step (Send (infoMsg grp now
                   (if length format > 0 then Sprintf F format a else Sprint F a))) w"
proof (cases e)
  case (Send cmd)
  with assms show ?thesis
    by (auto simp: send_def EnableTrace_def EnableGroup_def log_def trace_def info_def
        split: if_splits)
next
  case Worker
  with assms show ?thesis by simp
next
  case (Register n wr on')
  with assms obtain r where r: "RegisterGroup n wr on' w = (Inr r, w')"
    by (auto split: prod.splits sum.splits)
  then have "traceEnabled w' = traceEnabled w" "files w' = files w" "logstream w' = logstream w"
    by (auto simp: RegisterGroup_def Let_def split: if_splits)
  with RegisterGroup_enabled [OF r] Register show ?thesis
    by (auto simp: send_def EnableTrace_def EnableGroup_def log_def trace_def info_def)
next
  case (SetOutput wr)
  with assms have w': "w' = SetDefaultOutput wr w" by simp
  have "traceEnabled w' = traceEnabled w" "files w' = files w" "logstream w' = logstream w"
    unfolding w' by (auto simp: SetDefaultOutput_def)
  with SetDefaultOutput_enabled [of _ w wr] SetOutput w' show ?thesis
    by (auto simp: send_def EnableTrace_def EnableGroup_def log_def trace_def info_def)
qed

theorem flags_change_only_in_worker_witness:
  "step (Send (cmdEnabletrace True)) init = Ok (init\<lparr>logstream := [cmdEnabletrace True]\<rparr>)
   \<and> Send (cmdEnabletrace True) \<noteq> Worker
   \<and> traceEnabled (init\<lparr>logstream := [cmdEnabletrace True]\<rparr>) = traceEnabled init
   \<and> EnableTrace True init = Ok (init\<lparr>logstream := [cmdEnabletrace True]\<rparr>)"
proof -
  have h: "step (Send (cmdEnabletrace True)) init = Ok (init\<lparr>logstream := [cmdEnabletrace True]\<rparr>)"
    "Send (cmdEnabletrace True) \<noteq> Worker"
    by (simp_all add: send_def init_simps chanBufSize_def)
  from flags_change_only_in_worker [OF h, where on = True and grp = 0 and now = sampleTime
         and a = "[]" and format = "[]"
         and F = "\<lparr>Sprintf = (\<lambda>f a. f), Sprint = concat\<rparr>"]
  show ?thesis using h by simp
qed

text \<open>
  C8. Frame of \<^verbatim>\<open>SetDefaultOutput\<close>. When the registry is not empty, the call
  replaces entry 0 by a group with the empty name, the new writer and the old enabled
  flag; the other groups, \<^verbatim>\<open>traceEnabled\<close>, the buffer and the writers' contents
  stay as they were.
\<close>

theorem SetDefaultOutput_frame:
  assumes "groups w \<noteq> []"
  shows "SetDefaultOutput wr w =
           w\<lparr>groups := \<lparr>name = '''', out = wr, enabled = enabled (hd (groups w))\<rparr> # tl (groups w)\<rparr>
       \<and> out (groups (SetDefaultOutput wr w) ! 0) = wr
       \<and> enabled (groups (SetDefaultOutput wr w) ! 0) = enabled (groups w ! 0)
       \<and> name (groups (SetDefaultOutput wr w) ! 0) = ''''
       \<and> length (groups (SetDefaultOutput wr w)) = length (groups w)
       \<and> (\<forall>i. 0 < i \<longrightarrow> groups (SetDefaultOutput wr w) ! i = groups w ! i)
       \<and> traceEnabled (SetDefaultOutput wr w) = traceEnabled w
       \<and> logstream (SetDefaultOutput wr w) = logstream w
       \<and> files (SetDefaultOutput wr w) = files w"
proof -
  obtain g gs where g: "groups w = g # gs" using assms by (cases "groups w") auto
  show ?thesis
    by (auto simp: SetDefaultOutput_def g defaultGroup_def)
qed

theorem SetDefaultOutput_frame_witness:
  "groups testWorld \<noteq> []
   \<and> groups (SetDefaultOutput (Writer 5) testWorld) =
       [\<lparr>name = '''', out = Writer 5, enabled = True\<rparr>,
        \<lparr>name = ''test'', out = Writer 1, enabled = True\<rparr>]
   \<and> traceEnabled (SetDefaultOutput (Writer 5) testWorld) = traceEnabled testWorld"
proof -
  have h: "groups testWorld \<noteq> []" by (simp add: testWorld_groups)
  from SetDefaultOutput_frame [OF h, of "Writer 5"]
  show ?thesis using h by (simp add: testWorld_groups defaultGroup_def)
qed

text \<open>
  C9. Unvalidated group indices. The claim has every log or enable-group command with
  an index outside the registry panic in the worker. A trace command does not while
  tracing is off, as it is after \<^verbatim>\<open>init\<close>: the worker drops it.
\<close>

theorem out_of_range_trace_dropped:
  "logApi_do (traceMsg 7 sampleTime ''Test trace'') init = Inr init
   \<and> \<not> (7 < int (length (groups init)))
   \<and> logApi_do (traceMsg (- 1) sampleTime ''Test trace'') init = Inr init"
  by (simp add: traceMsg_do_def init_simps)

text \<open>
  C9, amended: for an index outside the registry, an info command and an enable-group
  command panic with an index error, in \<^verbatim>\<open>do\<close> and so in the worker's turn; a trace
  command panics when \<^verbatim>\<open>traceEnabled\<close> holds and is dropped otherwise. The calls
  \<^verbatim>\<open>Infog\<close>, \<^verbatim>\<open>Traceg\<close> and \<^verbatim>\<open>EnableGroup\<close> send the command without looking at
  the index.
\<close>

theorem out_of_range_index:
  assumes "grp < 0 \<or> int (length (groups w)) \<le> grp"
  shows "logApi_do (infoMsg grp t msg) w = Inl IndexOutOfRange
       \<and> logApi_do (cmdEnableGroup grp on) w = Inl IndexOutOfRange
       \<and> logApi_do (traceMsg grp t msg) w =
           (if traceEnabled w then Inl IndexOutOfRange else Inr w)
       \<and> logRoutine_step (w\<lparr>logstream := infoMsg grp t msg # rest, running := True\<rparr>) =
           Panic IndexOutOfRange
       \<and> logRoutine_step (w\<lparr>logstream := cmdEnableGroup grp on # rest, running := True\<rparr>) =
           Panic IndexOutOfRange
       \<and> Infog F grp a now w = send (infoMsg grp now (Sprint F a)) w
       \<and> Traceg F grp a now w = send (traceMsg grp now (Sprint F a)) w
       \<and> EnableGroup grp on w = send (cmdEnableGroup grp on) w"
proof -
  have g: "groupAt w grp = Inl IndexOutOfRange"
    using assms by (rule groupAt_invalid)
  have g': "groupAt v grp = Inl IndexOutOfRange" if "groups v = groups w" for v
    using assms that by (auto simp: groupAt_def)
  show ?thesis
    by (simp add: infoMsg_do_def cmdEnableGroup_do_def traceMsg_do_def g g'
          logRoutine_step_def Infog_def Traceg_def EnableGroup_def log_def trace_def info_def)
qed

theorem out_of_range_index_witness:
  "((5::int) < 0 \<or> int (length (groups init)) \<le> 5)
   \<and> logApi_do (infoMsg 5 sampleTime ''Test info'') init = Inl IndexOutOfRange
   \<and> logApi_do (cmdEnableGroup 5 True) init = Inl IndexOutOfRange
   \<and> logApi_do (traceMsg 5 sampleTime ''Test info'') init = Inr init
   \<and> logApi_do (traceMsg 5 sampleTime ''Test info'') (init\<lparr>traceEnabled := True\<rparr>) =
       Inl IndexOutOfRange"
proof -
  have h: "(5::int) < 0 \<or> int (length (groups init)) \<le> 5"
    "(5::int) < 0 \<or> int (length (groups (init\<lparr>traceEnabled := True\<rparr>))) \<le> 5"
    by (simp_all add: init_simps)
  from out_of_range_index [OF h(1), where t = sampleTime and msg = "''Test info''" and on = True
         and rest = "[]" and now = sampleTime and a = "[]"
         and F = "\<lparr>Sprintf = (\<lambda>f a. f), Sprint = concat\<rparr>"]
       out_of_range_index [OF h(2), where t = sampleTime and msg = "''Test info''" and on = True
         and rest = "[]" and now = sampleTime and a = "[]"
         and F = "\<lparr>Sprintf = (\<lambda>f a. f), Sprint = concat\<rparr>"]
  show ?thesis using h(1) by (simp add: init_simps)
qed

text \<open>
  C10. Empty-template fallback. A logging call with an empty format string builds its
  message with \<^verbatim>\<open>Sprint\<close> over the arguments, not with \<^verbatim>\<open>Sprintf\<close> against the
  empty template; so \<^verbatim>\<open>Infof\<close>, \<^verbatim>\<open>Tracef\<close>, \<^verbatim>\<open>Infogf\<close> and \<^verbatim>\<open>Tracegf\<close> called
  with the empty template do exactly what \<^verbatim>\<open>Info\<close>, \<^verbatim>\<open>Trace\<close>, \<^verbatim>\<open>Infog\<close> and
  \<^verbatim>\<open>Traceg\<close> do with the same arguments, the same clock reading and the same state,
  whatever the two formatting functions are.
\<close>

theorem empty_template_uses_Sprint:
  "log F grp info '''' a now w = send (infoMsg grp now (Sprint F a)) w
   \<and> log F grp trace '''' a now w = send (traceMsg grp now (Sprint F a)) w
   \<and> Infof F '''' a now w = Info F a now w
   \<and> Tracef F '''' a now w = Trace F a now w
   \<and> Infogf F grp '''' a now w = Infog F grp a now w
   \<and> Tracegf F grp '''' a now w = Traceg F grp a now w"
  by (simp add: log_def Info_def Infof_def Infog_def Infogf_def Trace_def Tracef_def
      Traceg_def Tracegf_def trace_def info_def)

end
